theory Spec2Isabelle
  imports Main "HOL-Library.Sublist"
begin

text \<open>
  A shallow embedding of \<^verbatim>\<open>peg-game-solver.py\<close>: the construction of the board graph
  (\<^verbatim>\<open>triangular_number\<close>, \<^verbatim>\<open>generate_triangle_graph\<close>), the move generator
  (\<^verbatim>\<open>get_valid_moves\<close>), the depth-first search (\<^verbatim>\<open>solve\<close>) with its three
  global variables, and the loop of \<^verbatim>\<open>main\<close> over the starting positions. Printing is
  left out.
\<close>

section \<open>Python values and errors\<close>

text \<open>
  The exceptions the program can raise are values: a result is \<open>Inl\<close> of the exception
  or \<open>Inr\<close> of the value. Every index the program uses is a position of the board, a
  natural number, so Python's negative indices do not occur; reading or writing a list
  beyond its end raises \<^verbatim>\<open>IndexError\<close>.
\<close>

datatype error = IndexError | KeyError | NetworkXError

definition bind_e :: "error + 'a \<Rightarrow> ('a \<Rightarrow> error + 'b) \<Rightarrow> error + 'b" where
  "bind_e r f = (case r of Inl e \<Rightarrow> Inl e | Inr x \<Rightarrow> f x)"

definition py_get :: "'a list \<Rightarrow> nat \<Rightarrow> error + 'a" where
  "py_get xs i = (if i < length xs then Inr (xs ! i) else Inl IndexError)"

definition py_set :: "'a list \<Rightarrow> nat \<Rightarrow> 'a \<Rightarrow> error + 'a list" where
  "py_set xs i v = (if i < length xs then Inr (xs[i := v]) else Inl IndexError)"

section \<open>The board graph\<close>

text \<open>
  The program keeps the board in a \<^verbatim>\<open>networkx.Graph\<close>. Of that class the embedding
  keeps what the program's calls use: the nodes in the order they were added, each with its
  attribute \<^verbatim>\<open>level\<close> (absent until it is set) and with its neighbours in the order
  the edges were added; \<^verbatim>\<open>neighbors\<close> iterates in that order, and the order decides in
  which order moves are generated. \<^verbatim>\<open>add_node\<close> and \<^verbatim>\<open>add_edge\<close> leave what is
  already there in its place; \<^verbatim>\<open>neighbors\<close> of a node that is not in the graph raises
  \<^verbatim>\<open>NetworkXError\<close>, and reading the level of a node that is absent or has none raises
  \<^verbatim>\<open>KeyError\<close>. In \<^verbatim>\<open>generate_triangle_graph\<close> the level is set on nodes that the
  first loop has added, so \<open>set_level\<close> has no error case.
\<close>

record node_entry =
  level :: "nat option"
  nbrs :: "nat list"

type_synonym graph = "(nat \<times> node_entry) list"

definition add_node :: "graph \<Rightarrow> nat \<Rightarrow> graph" where
  "add_node g v = (if v \<in> fst ` set g then g else g @ [(v, \<lparr>level = None, nbrs = []\<rparr>)])"

definition link :: "graph \<Rightarrow> nat \<Rightarrow> nat \<Rightarrow> graph" where
  "link g u v =
     map (\<lambda>(k, e). if k = u \<and> v \<notin> set (nbrs e) then (k, e\<lparr>nbrs := nbrs e @ [v]\<rparr>) else (k, e)) g"

definition add_edge :: "graph \<Rightarrow> nat \<Rightarrow> nat \<Rightarrow> graph" where
  "add_edge g u v = link (link (add_node (add_node g u) v) u v) v u"

definition set_level :: "graph \<Rightarrow> nat \<Rightarrow> nat \<Rightarrow> graph" where
  "set_level g v l = map (\<lambda>(k, e). if k = v then (k, e\<lparr>level := Some l\<rparr>) else (k, e)) g"

definition neighbors :: "graph \<Rightarrow> nat \<Rightarrow> error + nat list" where
  "neighbors g v = (case map_of g v of None \<Rightarrow> Inl NetworkXError | Some e \<Rightarrow> Inr (nbrs e))"

definition node_level :: "graph \<Rightarrow> nat \<Rightarrow> error + nat" where
  "node_level g v =
     (case map_of g v of
        None \<Rightarrow> Inl KeyError
      | Some e \<Rightarrow> (case level e of None \<Rightarrow> Inl KeyError | Some l \<Rightarrow> Inr l))"

text \<open>
  \<open>visit_node\<close> is the body of the two nested loops of \<^verbatim>\<open>generate_triangle_graph\<close>
  for row \<open>i\<close> and column \<open>j\<close>.
\<close>

definition triangular_number :: "int \<Rightarrow> int" where
  "triangular_number n = n * (n + 1) div 2"

definition visit_node :: "int \<Rightarrow> nat \<Rightarrow> nat \<Rightarrow> graph \<Rightarrow> graph" where
  "visit_node n i j g =
     (let current_node = i * (i + 1) div 2 + j;
          g1 = set_level g current_node i;
          g2 = (if int i < n - 1
                then add_edge (add_edge g1 current_node (current_node + i + 1))
                       current_node (current_node + i + 2)
                else g1)
      in if j < i then add_edge g2 current_node (current_node + 1) else g2)"

definition generate_triangle_graph :: "int \<Rightarrow> graph" where
  "generate_triangle_graph n =
     (let vertices = triangular_number n;
          g0 = fold (\<lambda>i g. add_node g i) [0..<nat vertices] []
      in fold (\<lambda>i g. fold (\<lambda>j g'. visit_node n i j g') [0..<i + 1] g) [0..<nat n] g0)"

section \<open>Move generation\<close>

text \<open>
  \<open>check_move\<close> is the body of the inner loop of \<^verbatim>\<open>get_valid_moves\<close> for one
  \<open>src\<close> and one neighbour \<open>mid\<close>, its tests in the order of the source: \<open>None\<close> stands
  for \<^verbatim>\<open>continue\<close>, \<open>Some m\<close> for appending \<open>m\<close>. The destination is computed in the
  integers, where it can be negative; it is used as an index only after it was found among
  the neighbours of \<open>mid\<close>. \<open>moves_over_mids\<close> and \<open>moves_over_srcs\<close> are the inner and
  the outer loop, with the list \<^verbatim>\<open>moves\<close> as accumulator.
\<close>

type_synonym move = "nat \<times> nat \<times> nat"

definition check_move :: "graph \<Rightarrow> bool list \<Rightarrow> nat \<Rightarrow> nat \<Rightarrow> error + move option" where
  "check_move g bs src mid =
     (if mid = src then Inr None
      else bind_e (py_get bs mid) (\<lambda>mid_peg.
        if \<not> mid_peg then Inr None
        else bind_e (node_level g src) (\<lambda>src_lvl.
             bind_e (node_level g mid) (\<lambda>mid_lvl.
               let dest = (if src_lvl \<noteq> mid_lvl then 2 * int mid - int src + 1
                           else 2 * int mid - int src)
               in bind_e (neighbors g mid) (\<lambda>mid_nbrs.
                    if dest \<notin> int ` set mid_nbrs then Inr None
                    else bind_e (neighbors g src) (\<lambda>src_nbrs.
                      if dest \<in> int ` set src_nbrs then Inr None
                      else bind_e (if src_lvl = mid_lvl
                                   then bind_e (node_level g (nat dest)) (\<lambda>dest_lvl.
                                          Inr (mid_lvl \<noteq> dest_lvl))
                                   else Inr False) (\<lambda>off_level.
                             if off_level then Inr None
                             else bind_e (py_get bs (nat dest)) (\<lambda>dest_peg.
                                    if dest_peg then Inr None
                                    else Inr (Some (src, mid, nat dest))))))))))"

fun moves_over_mids :: "graph \<Rightarrow> bool list \<Rightarrow> nat \<Rightarrow> nat list \<Rightarrow> move list \<Rightarrow> error + move list" where
  "moves_over_mids g bs src [] moves = Inr moves"
| "moves_over_mids g bs src (mid # mids) moves =
     bind_e (check_move g bs src mid) (\<lambda>r.
       moves_over_mids g bs src mids (case r of None \<Rightarrow> moves | Some m \<Rightarrow> moves @ [m]))"

fun moves_over_srcs :: "graph \<Rightarrow> bool list \<Rightarrow> nat list \<Rightarrow> move list \<Rightarrow> error + move list" where
  "moves_over_srcs g bs [] moves = Inr moves"
| "moves_over_srcs g bs (src # srcs) moves =
     bind_e (py_get bs src) (\<lambda>has_peg.
       if has_peg
       then bind_e (neighbors g src) (\<lambda>mids.
              bind_e (moves_over_mids g bs src mids moves) (\<lambda>moves'.
                moves_over_srcs g bs srcs moves'))
       else moves_over_srcs g bs srcs moves)"

definition get_valid_moves :: "graph \<Rightarrow> bool list \<Rightarrow> error + move list" where
  "get_valid_moves g bs = moves_over_srcs g bs [0..<length g] []"

section \<open>Search\<close>

text \<open>
  The three globals of the program make up the state that \<open>solve\<close> takes and returns.
  \<^verbatim>\<open>SEEN\<close> is a Python set; it is kept here as the list of the encodings in the order
  of the calls of \<^verbatim>\<open>SEEN.add\<close>, so that adding an encoding twice would show. The set is
  \<open>set (SEEN s)\<close>, and \<^verbatim>\<open>in\<close> is membership in it.

  \<open>for_loop\<close> runs the body of a Python \<^verbatim>\<open>for\<close> over a list, threading the state: the
  body gives \<open>None\<close> to go on with the next element (the end of the body or
  \<^verbatim>\<open>continue\<close>) and \<open>Some r\<close> to leave the function with \<open>r\<close> (\<^verbatim>\<open>return\<close> or a
  raised exception).
\<close>

record state =
  SEEN :: "string list"
  FINAL_MOVE_LIST :: "move list"
  N_MOVES :: int

definition make_move :: "bool list \<Rightarrow> move \<Rightarrow> error + bool list" where
  "make_move bs m =
     (case m of (m0, m1, m2) \<Rightarrow>
        bind_e (py_set bs m0 False) (\<lambda>b0.
        bind_e (py_set b0 m1 False) (\<lambda>b1.
          py_set b1 m2 True)))"

definition bs_hash :: "bool list \<Rightarrow> string" where
  "bs_hash new_bs = map (\<lambda>x. if x then CHR ''1'' else CHR ''0'') new_bs"

definition pop :: "'a list \<Rightarrow> error + 'a list" where
  "pop xs = (if xs = [] then Inl IndexError else Inr (butlast xs))"

fun for_loop :: "('a \<Rightarrow> 's \<Rightarrow> 'r option \<times> 's) \<Rightarrow> 'a list \<Rightarrow> 's \<Rightarrow> 'r option \<times> 's" where
  "for_loop body [] s = (None, s)"
| "for_loop body (x # xs) s =
     (case body x s of
        (None, s') \<Rightarrow> for_loop body xs s'
      | (Some r, s') \<Rightarrow> (Some r, s'))"

lemma for_loop_cong [fundef_cong]:
  "xs = ys \<Longrightarrow> s = t \<Longrightarrow> (\<And>x u. x \<in> set ys \<Longrightarrow> body x u = body' x u)
   \<Longrightarrow> for_loop body xs s = for_loop body' ys t"
proof (induction ys arbitrary: xs s t)
  case Nil
  then show ?case by simp
next
  case (Cons y ys)
  then show ?case by (auto split: prod.splits option.splits)
qed

function solve :: "graph \<Rightarrow> bool list \<Rightarrow> state \<Rightarrow> (error + bool) \<times> state" where
  "solve g bs st =
     (if count_list bs True = 1 then (Inr True, st)
      else case get_valid_moves g bs of
        Inl e \<Rightarrow> (Inl e, st)
      | Inr moves \<Rightarrow>
          if length moves = 0 then (Inr False, st)
          else case for_loop (\<lambda>m s.
                 let s1 = s\<lparr>N_MOVES := N_MOVES s + 1\<rparr> in
                 case make_move bs m of
                   Inl e \<Rightarrow> (Some (Inl e), s1)
                 | Inr new_bs \<Rightarrow>
                     if bs_hash new_bs \<in> set (SEEN s1) then (None, s1)
                     else
                       let s2 = s1\<lparr>SEEN := SEEN s1 @ [bs_hash new_bs],
                                   FINAL_MOVE_LIST := FINAL_MOVE_LIST s1 @ [m]\<rparr> in
                       (case solve g new_bs s2 of
                          (Inl e, s3) \<Rightarrow> (Some (Inl e), s3)
                        | (Inr True, s3) \<Rightarrow> (Some (Inr True), s3)
                        | (Inr False, s3) \<Rightarrow>
                            (case pop (FINAL_MOVE_LIST s3) of
                               Inl e \<Rightarrow> (Some (Inl e), s3)
                             | Inr p \<Rightarrow> (None, s3\<lparr>FINAL_MOVE_LIST := p\<rparr>))))
               moves st of
            (Some r, st') \<Rightarrow> (r, st')
          | (None, st') \<Rightarrow> (Inr False, st'))"
  by pat_completeness auto

section \<open>Termination of the search\<close>

text \<open>
  Every move that \<open>get_valid_moves\<close> returns has pegs at two different positions and a
  hole at a third, so making it takes one peg off the board: the number of pegs decreases
  along the recursion.
\<close>

lemma bind_e_Inr [simp]: "bind_e r f = Inr y \<longleftrightarrow> (\<exists>x. r = Inr x \<and> f x = Inr y)"
  by (cases r) (simp_all add: bind_e_def)

lemma bind_e_simps [simp]: "bind_e (Inl e) f = Inl e" "bind_e (Inr x) f = f x"
  by (simp_all add: bind_e_def)

lemma py_get_Inr [simp]: "py_get xs i = Inr v \<longleftrightarrow> i < length xs \<and> xs ! i = v"
  by (auto simp: py_get_def)

lemma py_set_Inr [simp]: "py_set xs i v = Inr ys \<longleftrightarrow> i < length xs \<and> ys = xs[i := v]"
  by (auto simp: py_set_def)

lemma check_move_Some:
  assumes "check_move g bs src mid = Inr (Some m)"
  shows "\<exists>dest mid_nbrs src_nbrs src_lvl mid_lvl.
           m = (src, mid, dest) \<and> mid \<noteq> src \<and>
           mid < length bs \<and> bs ! mid \<and> dest < length bs \<and> \<not> bs ! dest \<and>
           neighbors g mid = Inr mid_nbrs \<and> dest \<in> set mid_nbrs \<and>
           neighbors g src = Inr src_nbrs \<and> dest \<notin> set src_nbrs \<and>
           node_level g src = Inr src_lvl \<and> node_level g mid = Inr mid_lvl \<and>
           (src_lvl = mid_lvl \<longrightarrow> node_level g dest = Inr mid_lvl) \<and>
           int dest = (if src_lvl \<noteq> mid_lvl then 2 * int mid - int src + 1 else 2 * int mid - int src)"
  using assms unfolding check_move_def
  by (auto simp: Let_def split: if_splits)

lemma moves_over_mids_mem:
  "moves_over_mids g bs src mids moves = Inr ms \<Longrightarrow> m \<in> set ms \<Longrightarrow>
   m \<in> set moves \<or> (\<exists>mid \<in> set mids. check_move g bs src mid = Inr (Some m))"
  by (induction mids arbitrary: moves) (fastforce split: option.splits)+

lemma moves_over_srcs_mem:
  "moves_over_srcs g bs srcs moves = Inr ms \<Longrightarrow> m \<in> set ms \<Longrightarrow>
   m \<in> set moves \<or>
   (\<exists>src \<in> set srcs. src < length bs \<and> bs ! src \<and>
      (\<exists>mids. neighbors g src = Inr mids \<and>
         (\<exists>mid \<in> set mids. check_move g bs src mid = Inr (Some m))))"
proof (induction srcs arbitrary: moves)
  case Nil
  then show ?case by simp
next
  case (Cons src srcs)
  show ?case
  proof (cases "bs ! src")
    case True
    with Cons.prems obtain mids moves' where
      *: "src < length bs" "neighbors g src = Inr mids"
         "moves_over_mids g bs src mids moves = Inr moves'"
         "moves_over_srcs g bs srcs moves' = Inr ms"
      by auto
    from Cons.IH[OF *(4) Cons.prems(2)] show ?thesis
    proof
      assume "m \<in> set moves'"
      from moves_over_mids_mem[OF *(3) this] True * show ?thesis by auto
    next
      assume "\<exists>src\<in>set srcs. src < length bs \<and> bs ! src \<and>
        (\<exists>mids. neighbors g src = Inr mids \<and> (\<exists>mid\<in>set mids. check_move g bs src mid = Inr (Some m)))"
      then show ?thesis by auto
    qed
  next
    case False
    with Cons.prems have "moves_over_srcs g bs srcs moves = Inr ms" by auto
    from Cons.IH[OF this Cons.prems(2)] show ?thesis by auto
  qed
qed

lemma count_list_update:
  "i < length xs \<Longrightarrow>
   count_list (xs[i := v]) a + (if xs ! i = a then 1 else 0) = count_list xs a + (if v = a then 1 else 0)"
proof (induction xs arbitrary: i)
  case Nil
  then show ?case by simp
next
  case (Cons x xs)
  show ?case
  proof (cases i)
    case 0
    then show ?thesis by simp
  next
    case (Suc j)
    with Cons.prems have "j < length xs" by simp
    from Cons.IH[OF this] Suc show ?thesis by auto
  qed
qed

lemma count_list_pos: "i < length xs \<Longrightarrow> xs ! i = a \<Longrightarrow> 0 < count_list xs a"
  by (metis count_list_0_iff nth_mem not_gr_zero)


lemma make_move_count:
  assumes "src < length bs" "bs ! src" "mid < length bs" "bs ! mid" "mid \<noteq> src"
    "dest < length bs" "\<not> bs ! dest"
  shows "\<exists>new_bs. make_move bs (src, mid, dest) = Inr new_bs \<and> length new_bs = length bs \<and>
           count_list new_bs True + 1 = count_list bs True"
proof -
  let ?b0 = "bs[src := False]"
  let ?b1 = "?b0[mid := False]"
  let ?b2 = "?b1[dest := True]"
  have m: "make_move bs (src, mid, dest) = Inr ?b2"
    using assms by (simp add: make_move_def)
  have c0: "count_list ?b0 True + 1 = count_list bs True"
    using count_list_update[of src bs False True] assms by simp
  have "?b0 ! mid" using assms by simp
  then have c1: "count_list ?b1 True + 1 = count_list ?b0 True"
    using count_list_update[of mid ?b0 False True] assms by simp
  have "\<not> ?b1 ! dest" using assms by (metis nth_list_update_eq nth_list_update_neq length_list_update)
  then have c2: "count_list ?b2 True = count_list ?b1 True + 1"
    using count_list_update[of dest ?b1 True True] assms by simp
  have "0 < count_list ?b0 True"
    using \<open>?b0 ! mid\<close> assms count_list_pos[of mid ?b0 True] by simp
  with c0 c1 c2 have "count_list ?b2 True + 1 = count_list bs True" by simp
  with m show ?thesis by simp
qed

lemma get_valid_moves_mem:
  assumes "get_valid_moves g bs = Inr moves" "m \<in> set moves"
  shows "\<exists>src mids mid. src < length g \<and> src < length bs \<and> bs ! src \<and> neighbors g src = Inr mids \<and>
           mid \<in> set mids \<and> check_move g bs src mid = Inr (Some m)"
proof -
  from moves_over_srcs_mem[OF assms[unfolded get_valid_moves_def]]
  obtain src mids mid where "src \<in> set [0..<length g]" "src < length bs" "bs ! src"
    "neighbors g src = Inr mids" "mid \<in> set mids" "check_move g bs src mid = Inr (Some m)"
    by auto
  then show ?thesis by (intro exI[of _ src] exI[of _ mids] exI[of _ mid]) simp
qed

lemma generated_move_count:
  assumes "get_valid_moves g bs = Inr moves" "m \<in> set moves"
  shows "\<exists>new_bs. make_move bs m = Inr new_bs \<and> length new_bs = length bs \<and>
           count_list new_bs True + 1 = count_list bs True"
proof -
  from get_valid_moves_mem[OF assms] obtain src mids mid where
    s: "src < length bs" "bs ! src" and c: "check_move g bs src mid = Inr (Some m)"
    by blast
  from check_move_Some[OF c] obtain dest where
    "m = (src, mid, dest)" "mid \<noteq> src" "mid < length bs" "bs ! mid" "dest < length bs" "\<not> bs ! dest"
    by blast
  with s make_move_count[of src bs mid dest] show ?thesis by simp
qed

termination solve
proof (relation "measure (\<lambda>(g, bs, st). count_list bs True)")
  show "wf (measure (\<lambda>(g, bs, st). count_list bs True))" by simp
next
  fix g :: graph and bs :: "bool list" and st :: state and moves m u s1 new_bs s2
  assume "get_valid_moves g bs = Inr moves" "m \<in> set moves" "make_move bs m = Inr new_bs"
  with generated_move_count[of g bs moves m]
  show "((g, new_bs, s2), (g, bs, st)) \<in> measure (\<lambda>(g, bs, st). count_list bs True)"
    by auto
qed


definition init_state :: state where
  "init_state = \<lparr>SEEN = [], FINAL_MOVE_LIST = [], N_MOVES = 0\<rparr>"


declare solve.simps [simp del]

section \<open>The loop of the search, named\<close>

text \<open>
  \<open>solve_body\<close> is the body of the loop in \<open>solve\<close>, and \<open>enter m new_bs s\<close> the state
  in which \<open>solve\<close> calls itself on \<open>new_bs\<close> after choosing \<open>m\<close> in state \<open>s\<close>.
\<close>

definition solve_body :: "graph \<Rightarrow> bool list \<Rightarrow> move \<Rightarrow> state \<Rightarrow> (error + bool) option \<times> state" where
  "solve_body g bs = (\<lambda>m s.
      let s1 = s\<lparr>N_MOVES := N_MOVES s + 1\<rparr> in
      case make_move bs m of
        Inl e \<Rightarrow> (Some (Inl e), s1)
      | Inr new_bs \<Rightarrow>
          if bs_hash new_bs \<in> set (SEEN s1) then (None, s1)
          else
            let s2 = s1\<lparr>SEEN := SEEN s1 @ [bs_hash new_bs],
                        FINAL_MOVE_LIST := FINAL_MOVE_LIST s1 @ [m]\<rparr> in
            (case solve g new_bs s2 of
               (Inl e, s3) \<Rightarrow> (Some (Inl e), s3)
             | (Inr True, s3) \<Rightarrow> (Some (Inr True), s3)
             | (Inr False, s3) \<Rightarrow>
                 (case pop (FINAL_MOVE_LIST s3) of
                    Inl e \<Rightarrow> (Some (Inl e), s3)
                  | Inr p \<Rightarrow> (None, s3\<lparr>FINAL_MOVE_LIST := p\<rparr>))))"

lemma solve_unfold:
  "solve g bs st =
     (if count_list bs True = 1 then (Inr True, st)
      else case get_valid_moves g bs of
        Inl e \<Rightarrow> (Inl e, st)
      | Inr moves \<Rightarrow>
          if length moves = 0 then (Inr False, st)
          else case for_loop (solve_body g bs) moves st of
            (Some r, st') \<Rightarrow> (r, st')
          | (None, st') \<Rightarrow> (Inr False, st'))"
  unfolding solve_body_def by (rule solve.simps)

definition enter :: "move \<Rightarrow> bool list \<Rightarrow> state \<Rightarrow> state" where
  "enter m new_bs s =
     s\<lparr>N_MOVES := N_MOVES s + 1, SEEN := SEEN s @ [bs_hash new_bs],
        FINAL_MOVE_LIST := FINAL_MOVE_LIST s @ [m]\<rparr>"


section \<open>The driver\<close>

text \<open>
  \<^verbatim>\<open>main\<close> sets the globals once, checks the number of rows, builds the graph and
  tries the starting positions in turn, leaving at the first success. \<open>start_nodes\<close>
  lists the values that \<^verbatim>\<open>current_node\<close> takes in the two nested loops, in their
  order, and \<open>try_start\<close> is the body of the inner loop. \<open>for_loop_entries\<close> lists the
  states in which the iterations of a loop start; \<open>solve_entries\<close> are the states in
  which \<open>main\<close> calls \<open>solve\<close>.
\<close>

datatype outcome = Solution "move list" | Unable | Usage

definition try_start :: "graph \<Rightarrow> nat \<Rightarrow> state \<Rightarrow> (error + outcome) option \<times> state" where
  "try_start g current_node s =
     (case py_set (replicate (length g) True) current_node False of
        Inl e \<Rightarrow> (Some (Inl e), s)
      | Inr board_state \<Rightarrow>
          (case solve g board_state s of
             (Inl e, s') \<Rightarrow> (Some (Inl e), s')
           | (Inr True, s') \<Rightarrow> (Some (Inr (Solution (FINAL_MOVE_LIST s'))), s')
           | (Inr False, s') \<Rightarrow> (None, s')))"

definition start_nodes :: "int \<Rightarrow> nat list" where
  "start_nodes n_rows =
     concat (map (\<lambda>i. map (\<lambda>j. i * (i + 1) div 2 + j) [0..<(i + 1) div 2 + 1])
               [0..<nat (n_rows div 2 + 1)])"

definition main :: "int \<Rightarrow> (error + outcome) \<times> state" where
  "main n_rows =
     (if n_rows < 4 \<or> n_rows > 6 then (Inr Usage, init_state)
      else
        let triangle_graph = generate_triangle_graph n_rows in
        case for_loop (try_start triangle_graph) (start_nodes n_rows) init_state of
          (Some r, s) \<Rightarrow> (r, s)
        | (None, s) \<Rightarrow> (Inr Unable, s))"

fun for_loop_entries :: "('a \<Rightarrow> 's \<Rightarrow> 'r option \<times> 's) \<Rightarrow> 'a list \<Rightarrow> 's \<Rightarrow> 's list" where
  "for_loop_entries body [] s = []"
| "for_loop_entries body (x # xs) s =
     s # (case body x s of
            (None, s') \<Rightarrow> for_loop_entries body xs s'
          | (Some r, s') \<Rightarrow> [])"

definition solve_entries :: "int \<Rightarrow> state list" where
  "solve_entries n_rows =
     for_loop_entries (try_start (generate_triangle_graph n_rows)) (start_nodes n_rows) init_state"

section \<open>The search on a store of list objects\<close>

text \<open>
  In the program a board is a mutable list that \<open>solve\<close> receives by reference. To speak
  of what a call does to the list it was given, \<open>solve_ref\<close> is \<open>solve\<close> once more, on a
  store: the globals together with the board lists allocated so far, a reference being an
  index into \<open>heap\<close>. \<^verbatim>\<open>bs.copy()\<close> allocates a new list, the three assignments write
  to the list at the reference \<open>new_bs\<close>, and the board is read from the store wherever
  the program reads it. \<open>solve_ref\<close> is defined without a termination argument;
  that it returns, and returns what \<open>solve\<close> does, is proved below.
\<close>

record store = state +
  heap :: "bool list list"

definition copy :: "nat \<Rightarrow> 'a store_scheme \<Rightarrow> nat \<times> 'a store_scheme" where
  "copy r s = (length (heap s), s\<lparr>heap := heap s @ [heap s ! r]\<rparr>)"

definition set_item :: "nat \<Rightarrow> nat \<Rightarrow> bool \<Rightarrow> 'a store_scheme \<Rightarrow> error + 'a store_scheme" where
  "set_item r i v s =
     (case py_set (heap s ! r) i v of
        Inl e \<Rightarrow> Inl e
      | Inr xs \<Rightarrow> Inr (s\<lparr>heap := (heap s)[r := xs]\<rparr>))"

definition make_move_at :: "nat \<Rightarrow> move \<Rightarrow> 'a store_scheme \<Rightarrow> error option \<times> 'a store_scheme" where
  "make_move_at new_bs m s =
     (case set_item new_bs (fst m) False s of
        Inl e \<Rightarrow> (Some e, s)
      | Inr s0 \<Rightarrow>
          (case set_item new_bs (fst (snd m)) False s0 of
             Inl e \<Rightarrow> (Some e, s0)
           | Inr s1 \<Rightarrow>
               (case set_item new_bs (snd (snd m)) True s1 of
                  Inl e \<Rightarrow> (Some e, s1)
                | Inr s2 \<Rightarrow> (None, s2))))"

fun for_loop_opt ::
  "('a \<Rightarrow> 's \<Rightarrow> ('r option \<times> 's) option) \<Rightarrow> 'a list \<Rightarrow> 's \<Rightarrow> ('r option \<times> 's) option" where
  "for_loop_opt body [] s = Some (None, s)"
| "for_loop_opt body (x # xs) s =
     Option.bind (body x s) (\<lambda>(r, s').
       case r of None \<Rightarrow> for_loop_opt body xs s' | Some v \<Rightarrow> Some (Some v, s'))"

lemma for_loop_opt_mono [partial_function_mono]:
  assumes "\<And>x s. mono_option (\<lambda>f. B f x s)"
  shows "mono_option (\<lambda>f. for_loop_opt (B f) xs s)"
proof (induction xs arbitrary: s)
  case Nil
  show ?case by (simp add: option.const_mono)
next
  case (Cons x xs)
  show ?case
    unfolding for_loop_opt.simps
    apply (rule bind_mono[OF assms])
    subgoal for y
      by (cases y; cases "fst y") (simp_all add: Cons.IH option.const_mono)
    done
qed

partial_function (option) solve_ref :: "graph \<Rightarrow> nat \<Rightarrow> store \<Rightarrow> ((error + bool) \<times> store) option" where
  "solve_ref g bs st =
     (if count_list (heap st ! bs) True = 1 then Some (Inr True, st)
      else case get_valid_moves g (heap st ! bs) of
        Inl e \<Rightarrow> Some (Inl e, st)
      | Inr moves \<Rightarrow>
          if length moves = 0 then Some (Inr False, st)
          else Option.bind (for_loop_opt (\<lambda>m s.
                 let s1 = s\<lparr>N_MOVES := N_MOVES s + 1\<rparr>;
                     (new_bs, s2) = copy bs s1
                 in case make_move_at new_bs m s2 of
                   (Some e, s3) \<Rightarrow> Some (Some (Inl e), s3)
                 | (None, s3) \<Rightarrow>
                     if bs_hash (heap s3 ! new_bs) \<in> set (SEEN s3) then Some (None, s3)
                     else
                       let s4 = s3\<lparr>SEEN := SEEN s3 @ [bs_hash (heap s3 ! new_bs)],
                                   FINAL_MOVE_LIST := FINAL_MOVE_LIST s3 @ [m]\<rparr> in
                       Option.bind (solve_ref g new_bs s4) (\<lambda>(r, s5).
                         case r of
                           Inl e \<Rightarrow> Some (Some (Inl e), s5)
                         | Inr True \<Rightarrow> Some (Some (Inr True), s5)
                         | Inr False \<Rightarrow>
                             (case pop (FINAL_MOVE_LIST s5) of
                                Inl e \<Rightarrow> Some (Some (Inl e), s5)
                              | Inr p \<Rightarrow> Some (None, s5\<lparr>FINAL_MOVE_LIST := p\<rparr>))))
               moves st)
            (\<lambda>(ro, st'). case ro of Some r \<Rightarrow> Some (r, st') | None \<Rightarrow> Some (Inr False, st')))"

definition solve_ref_body ::
  "graph \<Rightarrow> nat \<Rightarrow> move \<Rightarrow> store \<Rightarrow> ((error + bool) option \<times> store) option" where
  "solve_ref_body g bs = (\<lambda>m s.
      let s1 = s\<lparr>N_MOVES := N_MOVES s + 1\<rparr>;
          (new_bs, s2) = copy bs s1
      in case make_move_at new_bs m s2 of
        (Some e, s3) \<Rightarrow> Some (Some (Inl e), s3)
      | (None, s3) \<Rightarrow>
          if bs_hash (heap s3 ! new_bs) \<in> set (SEEN s3) then Some (None, s3)
          else
            let s4 = s3\<lparr>SEEN := SEEN s3 @ [bs_hash (heap s3 ! new_bs)],
                        FINAL_MOVE_LIST := FINAL_MOVE_LIST s3 @ [m]\<rparr> in
            Option.bind (solve_ref g new_bs s4) (\<lambda>(r, s5).
              case r of
                Inl e \<Rightarrow> Some (Some (Inl e), s5)
              | Inr True \<Rightarrow> Some (Some (Inr True), s5)
              | Inr False \<Rightarrow>
                  (case pop (FINAL_MOVE_LIST s5) of
                     Inl e \<Rightarrow> Some (Some (Inl e), s5)
                   | Inr p \<Rightarrow> Some (None, s5\<lparr>FINAL_MOVE_LIST := p\<rparr>))))"

lemma solve_ref_unfold:
  "solve_ref g bs st =
     (if count_list (heap st ! bs) True = 1 then Some (Inr True, st)
      else case get_valid_moves g (heap st ! bs) of
        Inl e \<Rightarrow> Some (Inl e, st)
      | Inr moves \<Rightarrow>
          if length moves = 0 then Some (Inr False, st)
          else Option.bind (for_loop_opt (solve_ref_body g bs) moves st)
            (\<lambda>(ro, st'). case ro of Some r \<Rightarrow> Some (r, st') | None \<Rightarrow> Some (Inr False, st')))"
  unfolding solve_ref_body_def by (rule solve_ref.simps)

section \<open>Notions for stating the properties\<close>

text \<open>
  \<open>position\<close> gives row and column of a board position, counted as in the header of the
  source file (row \<open>i\<close> starts at \<open>i (i + 1) / 2\<close>). A jump is straight when its two
  steps are the same step to a neighbouring position of the triangle. A move is legal on a
  board when source and jumped position hold pegs, the destination is empty, the jumped
  position is a neighbour of the source and the destination one of the jumped position in
  the graph, and the jump is straight. \<open>replay\<close> makes the moves of a path in order as
  long as each is legal.
\<close>

fun locate :: "nat \<Rightarrow> nat \<Rightarrow> nat \<times> nat" where
  "locate p i = (if p \<le> i then (i, p) else locate (p - Suc i) (Suc i))"

definition position :: "nat \<Rightarrow> nat \<times> nat" where
  "position p = locate p 0"

definition straight_jump :: "move \<Rightarrow> bool" where
  "straight_jump m =
     (case m of (src, mid, dest) \<Rightarrow>
        (case (position src, position mid, position dest) of ((r0, c0), (r1, c1), (r2, c2)) \<Rightarrow>
           (int r1 - int r0, int c1 - int c0) \<in> {(0, 1), (0, - 1), (1, 0), (1, 1), (- 1, 0), (- 1, - 1)} \<and>
           int r2 - int r1 = int r1 - int r0 \<and> int c2 - int c1 = int c1 - int c0))"

definition is_neighbor :: "graph \<Rightarrow> nat \<Rightarrow> nat \<Rightarrow> bool" where
  "is_neighbor g u v = (case neighbors g u of Inl e \<Rightarrow> False | Inr ns \<Rightarrow> v \<in> set ns)"

definition legal_move :: "graph \<Rightarrow> bool list \<Rightarrow> move \<Rightarrow> bool" where
  "legal_move g bs m =
     (case m of (src, mid, dest) \<Rightarrow>
        py_get bs src = Inr True \<and> py_get bs mid = Inr True \<and> py_get bs dest = Inr False \<and>
        is_neighbor g src mid \<and> is_neighbor g mid dest \<and> straight_jump m)"

fun replay :: "graph \<Rightarrow> bool list \<Rightarrow> move list \<Rightarrow> bool list option" where
  "replay g bs [] = Some bs"
| "replay g bs (m # ms) =
     (if legal_move g bs m
      then (case make_move bs m of Inl e \<Rightarrow> None | Inr new_bs \<Rightarrow> replay g new_bs ms)
      else None)"

text \<open>
  \<open>jump_target\<close> is the part of \<open>check_move\<close> that does not look at the board;
  \<open>jumps_straight\<close>, \<open>wf_graph\<close> and \<open>adjacent_rows\<close> are checks on a graph that can
  be evaluated: every jump the generator can produce is straight; the nodes are
  \<open>0, 1, ...\<close> in order, each with a level and with neighbours among the nodes; the
  levels of two nodes differ by at most one.
\<close>

definition jump_target :: "graph \<Rightarrow> nat \<Rightarrow> nat \<Rightarrow> nat option" where
  "jump_target g src mid =
     (case (node_level g src, node_level g mid, neighbors g mid, neighbors g src) of
        (Inr src_lvl, Inr mid_lvl, Inr mid_nbrs, Inr src_nbrs) \<Rightarrow>
          (let dest = (if src_lvl \<noteq> mid_lvl then 2 * int mid - int src + 1
                       else 2 * int mid - int src)
           in if dest \<in> int ` set mid_nbrs \<and> dest \<notin> int ` set src_nbrs \<and>
                 (src_lvl = mid_lvl \<longrightarrow> node_level g (nat dest) = Inr mid_lvl)
              then Some (nat dest) else None)
      | _ \<Rightarrow> None)"

definition jumps_straight :: "graph \<Rightarrow> bool" where
  "jumps_straight g =
     (\<forall>src \<in> set [0..<length g].
        case neighbors g src of
          Inl e \<Rightarrow> True
        | Inr mids \<Rightarrow>
            (\<forall>mid \<in> set mids.
               case jump_target g src mid of
                 None \<Rightarrow> True
               | Some dest \<Rightarrow> straight_jump (src, mid, dest)))"

definition wf_graph :: "graph \<Rightarrow> bool" where
  "wf_graph g =
     (map fst g = [0..<length g] \<and>
      (\<forall>(v, e) \<in> set g. level e \<noteq> None \<and> (\<forall>u \<in> set (nbrs e). u < length g)))"

definition edges :: "graph \<Rightarrow> (nat \<times> nat) list" where
  "edges g = concat (map (\<lambda>(u, e). map (\<lambda>v. (u, v)) (nbrs e)) g)"

definition adjacent_rows :: "graph \<Rightarrow> nat \<Rightarrow> nat \<Rightarrow> bool" where
  "adjacent_rows g u v =
     (case (node_level g u, node_level g v) of
        (Inr lu, Inr lv) \<Rightarrow> lu \<le> lv + 1 \<and> lv \<le> lu + 1
      | _ \<Rightarrow> False)"

text \<open>
  \<open>recursive_call g bs new_bs\<close>: a call of \<open>solve\<close> on \<open>bs\<close> can call \<open>solve\<close> on
  \<open>new_bs\<close>, that is, \<open>bs\<close> does not hold exactly one peg and \<open>new_bs\<close> comes from it by
  a generated move. Which of these calls are made depends on the visited set.

  The recursive calls in the body of \<open>solve\<close> are recorded, each with the tests it stands
  under, by the relation \<open>solve_rel\<close> that the definition of \<open>solve\<close> above gives rise
  to: \<open>solve_rel (g', new_bs, s') (g, bs, st)\<close> holds when the call \<open>solve g bs st\<close>
  reaches, for some state of the loop, the call \<open>solve g' new_bs s'\<close>. The state of the
  loop is left open in it, so every call that is made is in the relation, whatever the
  visited set holds. \<open>solve_calls a chain\<close>: \<open>chain\<close> is a sequence of calls nested in
  one another below the call \<open>a\<close>, each made by the one before it; its length is a depth
  that the recursion below \<open>a\<close> reaches.
\<close>

definition recursive_call :: "graph \<Rightarrow> bool list \<Rightarrow> bool list \<Rightarrow> bool" where
  "recursive_call g bs new_bs =
     (count_list bs True \<noteq> 1 \<and>
      (case get_valid_moves g bs of
         Inl e \<Rightarrow> False
       | Inr moves \<Rightarrow> Inr new_bs \<in> make_move bs ` set moves))"

fun solve_calls ::
  "graph \<times> bool list \<times> state \<Rightarrow> (graph \<times> bool list \<times> state) list \<Rightarrow> bool" where
  "solve_calls a [] = True"
| "solve_calls a (b # chain) = (solve_rel b a \<and> solve_calls b chain)"

text \<open>
  A board is solvable when some sequence of generated moves leads from it to a board with
  exactly one peg. \<open>dead_upto g k S\<close>: no board with at most \<open>k\<close> pegs whose encoding is
  in \<open>S\<close> is solvable.
\<close>

inductive solvable :: "graph \<Rightarrow> bool list \<Rightarrow> bool" for g where
  one_left: "count_list bs True = 1 \<Longrightarrow> solvable g bs"
| jump: "recursive_call g bs new_bs \<Longrightarrow> solvable g new_bs \<Longrightarrow> solvable g bs"

definition dead_upto :: "graph \<Rightarrow> nat \<Rightarrow> string set \<Rightarrow> bool" where
  "dead_upto g k S = (\<forall>b. bs_hash b \<in> S \<and> count_list b True \<le> k \<longrightarrow> \<not> solvable g b)"

text \<open>
  \<open>refines g b u\<close>: on every store that holds the board \<open>b\<close> at a reference and the
  globals \<open>u\<close>, \<open>solve_ref\<close> returns the result of \<open>solve g b u\<close> with its globals, and
  every list of the store is afterwards what it was before.
\<close>

definition refines :: "graph \<Rightarrow> bool list \<Rightarrow> state \<Rightarrow> bool" where
  "refines g b u =
     (\<forall>st bs. bs < length (heap st) \<longrightarrow> heap st ! bs = b \<longrightarrow> state.truncate st = u \<longrightarrow>
        (\<exists>st'. solve_ref g bs st = Some (fst (solve g b u), st') \<and>
           state.truncate st' = snd (solve g b u) \<and>
           length (heap st) \<le> length (heap st') \<and>
           take (length (heap st)) (heap st') = heap st))"

text \<open>Boards of the four-row triangle used as examples.\<close>

definition example_board :: "bool list" where
  "example_board = [False, True, True, True, True, True, True, True, True, True]"

definition two_pegs :: "bool list" where
  "two_pegs = [True, True, False, False, False, False, False, False, False, False]"

definition hole_at_1 :: "bool list" where
  "hole_at_1 = [True, False, True, True, True, True, True, True, True, True]"

definition three_pegs :: "bool list" where
  "three_pegs = [True, True, False, False, False, True, False, False, False, False]"

definition jumped_once :: "bool list" where
  "jumped_once = [True, False, True, False, True, True, True, True, True, True]"

definition jumped_twice :: "bool list" where
  "jumped_twice = [True, False, True, True, False, False, True, True, True, True]"

definition no_pegs :: "bool list" where
  "no_pegs = [False, False, False, False, False, False, False, False, False, False]"

definition peg_at_3 :: "bool list" where
  "peg_at_3 = [False, False, False, True, False, False, False, False, False, False]"

text \<open>
  The globals as the call of \<open>solve\<close> on \<open>two_pegs\<close> from the initial state has them
  when it makes its recursive call, on \<open>peg_at_3\<close>, and as it leaves them.
\<close>

definition used_state :: state where
  "used_state = \<lparr>SEEN = [''0001000000''], FINAL_MOVE_LIST = [(0, 1, 3)], N_MOVES = 1\<rparr>"

text \<open>Two states of the globals whose visited sets hold the same encodings, added in another order.\<close>

definition seen_two :: state where
  "seen_two = \<lparr>SEEN = [''0001010000'', ''0000000001''], FINAL_MOVE_LIST = [], N_MOVES = 0\<rparr>"

definition seen_two_swapped :: state where
  "seen_two_swapped =
     \<lparr>SEEN = [''0000000001'', ''0001010000''], FINAL_MOVE_LIST = [(5, 2, 0)], N_MOVES = 7\<rparr>"

definition one_board :: store where
  "one_board = \<lparr>SEEN = [], FINAL_MOVE_LIST = [], N_MOVES = 0, heap = [three_pegs]\<rparr>"

section \<open>Rules for the loop and the recursion\<close>

lemma for_loop_inv:
  assumes "I s"
    and "\<And>x u r u'. x \<in> set xs \<Longrightarrow> I u \<Longrightarrow> body x u = (r, u') \<Longrightarrow>
           (case r of None \<Rightarrow> I u' | Some v \<Rightarrow> Q v u')"
  shows "case for_loop body xs s of (None, s') \<Rightarrow> I s' | (Some v, s') \<Rightarrow> Q v s'"
  using assms
proof (induction xs arbitrary: s)
  case Nil
  then show ?case by simp
next
  case (Cons x xs)
  obtain r u where b: "body x s = (r, u)" by (cases "body x s")
  from Cons.prems(2)[OF _ Cons.prems(1) b]
  have step: "case r of None \<Rightarrow> I u | Some v \<Rightarrow> Q v u" by simp
  show ?case
  proof (cases r)
    case None
    with step have "I u" by simp
    then have "case for_loop body xs u of (None, s') \<Rightarrow> I s' | (Some v, s') \<Rightarrow> Q v s'"
      by (rule Cons.IH) (rule Cons.prems(2), simp_all)
    with None b show ?thesis by simp
  next
    case (Some v)
    with step b show ?thesis by simp
  qed
qed


lemma solve_body_cases [consumes 1, case_names bad_move seen raised found failed pop_failed]:
  assumes "solve_body g bs m s = (r, s')"
  obtains
    (bad_move) e where "make_move bs m = Inl e" "r = Some (Inl e)" "s' = s\<lparr>N_MOVES := N_MOVES s + 1\<rparr>"
  | (seen) new_bs where "make_move bs m = Inr new_bs" "bs_hash new_bs \<in> set (SEEN s)"
      "r = None" "s' = s\<lparr>N_MOVES := N_MOVES s + 1\<rparr>"
  | (raised) new_bs e where "make_move bs m = Inr new_bs" "bs_hash new_bs \<notin> set (SEEN s)"
      "solve g new_bs (enter m new_bs s) = (Inl e, s')" "r = Some (Inl e)"
  | (found) new_bs where "make_move bs m = Inr new_bs" "bs_hash new_bs \<notin> set (SEEN s)"
      "solve g new_bs (enter m new_bs s) = (Inr True, s')" "r = Some (Inr True)"
  | (failed) new_bs s3 where "make_move bs m = Inr new_bs" "bs_hash new_bs \<notin> set (SEEN s)"
      "solve g new_bs (enter m new_bs s) = (Inr False, s3)" "FINAL_MOVE_LIST s3 \<noteq> []"
      "r = None" "s' = s3\<lparr>FINAL_MOVE_LIST := butlast (FINAL_MOVE_LIST s3)\<rparr>"
  | (pop_failed) new_bs where "make_move bs m = Inr new_bs" "bs_hash new_bs \<notin> set (SEEN s)"
      "solve g new_bs (enter m new_bs s) = (Inr False, s')" "FINAL_MOVE_LIST s' = []"
      "r = Some (Inl IndexError)"
  using assms unfolding solve_body_def enter_def pop_def
  by (auto simp: Let_def split: sum.splits prod.splits bool.splits if_splits)

lemma solve_induct [case_names call]:
  assumes "\<And>g bs st.
     (\<And>moves m new_bs (s :: state). count_list bs True \<noteq> 1 \<Longrightarrow> get_valid_moves g bs = Inr moves \<Longrightarrow>
        m \<in> set moves \<Longrightarrow> make_move bs m = Inr new_bs \<Longrightarrow> bs_hash new_bs \<notin> set (SEEN s) \<Longrightarrow>
        P g new_bs (enter m new_bs s)) \<Longrightarrow> P g bs st"
  shows "P g bs st"
proof (induction g bs st rule: solve.induct)
  case (1 g bs st)
  show ?case
  proof (rule assms)
    fix moves m new_bs and s :: state
    assume a: "count_list bs True \<noteq> 1" "get_valid_moves g bs = Inr moves" "m \<in> set moves"
      "make_move bs m = Inr new_bs" "bs_hash new_bs \<notin> set (SEEN s)"
    then have "length moves \<noteq> 0" by auto
    from "1.IH"[OF a(1,2) this a(3) refl a(4) _ refl, of s] a(5)
    show "P g new_bs (enter m new_bs s)" by (simp add: enter_def)
  qed
qed

lemma solve_cases [consumes 1, case_names one_peg raised no_moves loop]:
  assumes "solve g bs st = (r, st')"
  obtains
    (one_peg) "count_list bs True = 1" "r = Inr True" "st' = st"
  | (raised) e where "count_list bs True \<noteq> 1" "get_valid_moves g bs = Inl e" "r = Inl e" "st' = st"
  | (no_moves) "count_list bs True \<noteq> 1" "get_valid_moves g bs = Inr []" "r = Inr False" "st' = st"
  | (loop) moves ro where "count_list bs True \<noteq> 1" "get_valid_moves g bs = Inr moves" "moves \<noteq> []"
      "for_loop (solve_body g bs) moves st = (ro, st')" "r = (case ro of None \<Rightarrow> Inr False | Some v \<Rightarrow> v)"
  using assms
  by (subst (asm) solve_unfold) (auto split: if_splits sum.splits prod.splits option.splits)

lemma solve_path:
  "solve g bs st = (r, st') \<Longrightarrow>
   \<exists>p. FINAL_MOVE_LIST st' = FINAL_MOVE_LIST st @ p \<and> (r = Inr False \<longrightarrow> p = [])"
proof (induction g bs st arbitrary: r st' rule: solve_induct)
  case (call g bs st)
  from call.prems show ?case
  proof (cases rule: solve_cases)
    case (loop moves ro)
    let ?I = "\<lambda>u. FINAL_MOVE_LIST u = FINAL_MOVE_LIST st"
    let ?Q = "\<lambda>v u. v \<noteq> Inr False \<and> (\<exists>p. FINAL_MOVE_LIST u = FINAL_MOVE_LIST st @ p)"
    have "case for_loop (solve_body g bs) moves st of (None, s') \<Rightarrow> ?I s' | (Some v, s') \<Rightarrow> ?Q v s'"
    proof (rule for_loop_inv[where I = ?I])
      fix m u ro' u'
      assume m: "m \<in> set moves" and I: "?I u" and b: "solve_body g bs m u = (ro', u')"
      note IH = call.IH[OF loop(1,2) m]
      from b show "case ro' of None \<Rightarrow> ?I u' | Some v \<Rightarrow> ?Q v u'"
      proof (cases rule: solve_body_cases)
        case (raised new_bs e)
        from IH[OF raised(1,2,3)] I raised(4) show ?thesis by (auto simp: enter_def)
      next
        case (found new_bs)
        from IH[OF found(1,2,3)] I found(4) show ?thesis by (auto simp: enter_def)
      next
        case (failed new_bs s3)
        from IH[OF failed(1,2,3)] I failed(5,6) show ?thesis by (auto simp: enter_def)
      next
        case (pop_failed new_bs)
        from IH[OF pop_failed(1,2,3)] I pop_failed(4) show ?thesis by (auto simp: enter_def)
      qed (use I in auto)
    qed simp
    with loop(4,5) show ?thesis by (auto split: option.splits)
  qed auto
qed

lemma solve_seen:
  "solve g bs st = (r, st') \<Longrightarrow>
   \<exists>new. SEEN st' = SEEN st @ new \<and> distinct new \<and> set new \<inter> set (SEEN st) = {}"
proof (induction g bs st arbitrary: r st' rule: solve_induct)
  case (call g bs st)
  from call.prems show ?case
  proof (cases rule: solve_cases)
    case (loop moves ro)
    let ?I = "\<lambda>u. \<exists>new. SEEN u = SEEN st @ new \<and> distinct new \<and> set new \<inter> set (SEEN st) = {}"
    have "case for_loop (solve_body g bs) moves st of (None, s') \<Rightarrow> ?I s' | (Some v, s') \<Rightarrow> ?I s'"
    proof (rule for_loop_inv[where I = ?I])
      fix m u ro' u'
      assume m: "m \<in> set moves" and I: "?I u" and b: "solve_body g bs m u = (ro', u')"
      from I obtain new where new: "SEEN u = SEEN st @ new" "distinct new" "set new \<inter> set (SEEN st) = {}"
        by blast
      have ext: "?I s3" if s: "solve g new_bs (enter m new_bs u) = (x, s3)"
        and h: "bs_hash new_bs \<notin> set (SEEN u)" and mm: "make_move bs m = Inr new_bs" for new_bs x s3
      proof -
        from call.IH[OF loop(1,2) m mm h s] obtain new' where
          n': "SEEN s3 = SEEN (enter m new_bs u) @ new'" "distinct new'"
          "set new' \<inter> set (SEEN (enter m new_bs u)) = {}" by blast
        let ?n = "new @ bs_hash new_bs # new'"
        from n' new h have "SEEN s3 = SEEN st @ ?n" "distinct ?n" "set ?n \<inter> set (SEEN st) = {}"
          by (auto simp: enter_def)
        then show ?thesis by blast
      qed
      from b have "?I u'"
      proof (cases rule: solve_body_cases)
        case (failed new_bs s3)
        from ext[OF failed(3,2,1)] failed(6) show ?thesis by simp
      next
        case (raised new_bs e)
        from ext[OF raised(3,2,1)] show ?thesis .
      next
        case (found new_bs)
        from ext[OF found(3,2,1)] show ?thesis .
      next
        case (pop_failed new_bs)
        from ext[OF pop_failed(3,2,1)] show ?thesis .
      qed (use I in auto)
      then show "case ro' of None \<Rightarrow> ?I u' | Some v \<Rightarrow> ?I u'" by (simp split: option.splits)
    qed simp
    with loop(4) show ?thesis by (auto split: option.splits)
  qed auto
qed


lemma pop_snoc [simp]: "pop (xs @ [x]) = Inr xs"
  by (simp add: pop_def)

lemma for_loop_rel:
  assumes "I s t"
    and "\<And>x u v. x \<in> set xs \<Longrightarrow> I u v \<Longrightarrow>
           \<exists>ro u' v'. body x u = (ro, u') \<and> body' x v = (ro, v') \<and>
             (case ro of None \<Rightarrow> I u' v' | Some a \<Rightarrow> Q u' v')"
  shows "\<exists>ro u' v'. for_loop body xs s = (ro, u') \<and> for_loop body' xs t = (ro, v') \<and>
           (case ro of None \<Rightarrow> I u' v' | Some a \<Rightarrow> Q u' v')"
  using assms
proof (induction xs arbitrary: s t)
  case Nil
  then show ?case by simp
next
  case (Cons x xs)
  from Cons.prems(2)[OF _ Cons.prems(1), of x] obtain ro u' v' where
    b: "body x s = (ro, u')" "body' x t = (ro, v')"
    and c: "case ro of None \<Rightarrow> I u' v' | Some a \<Rightarrow> Q u' v'" by auto
  show ?case
  proof (cases ro)
    case None
    with c have "I u' v'" by simp
    then have "\<exists>ro u'' v''. for_loop body xs u' = (ro, u'') \<and> for_loop body' xs v' = (ro, v'') \<and>
           (case ro of None \<Rightarrow> I u'' v'' | Some a \<Rightarrow> Q u'' v'')"
      by (rule Cons.IH) (rule Cons.prems(2), simp_all)
    with None b show ?thesis by simp
  next
    case (Some a)
    with b c show ?thesis by simp
  qed
qed

lemma solve_body_eq:
  "solve_body g b m u =
     (case make_move b m of
        Inl e \<Rightarrow> (Some (Inl e), u\<lparr>N_MOVES := N_MOVES u + 1\<rparr>)
      | Inr nb \<Rightarrow>
          if bs_hash nb \<in> set (SEEN u) then (None, u\<lparr>N_MOVES := N_MOVES u + 1\<rparr>)
          else (case solve g nb (enter m nb u) of
                  (Inl e, s3) \<Rightarrow> (Some (Inl e), s3)
                | (Inr True, s3) \<Rightarrow> (Some (Inr True), s3)
                | (Inr False, s3) \<Rightarrow>
                    (case pop (FINAL_MOVE_LIST s3) of
                       Inl e \<Rightarrow> (Some (Inl e), s3)
                     | Inr p \<Rightarrow> (None, s3\<lparr>FINAL_MOVE_LIST := p\<rparr>))))"
  by (simp add: solve_body_def enter_def Let_def split: sum.splits)

lemma solve_same_seen:
  assumes "set (SEEN st) = set (SEEN (t :: state))"
  shows "\<exists>r s' t' p new. solve g bs st = (r, s') \<and> solve g bs t = (r, t') \<and>
           SEEN s' = SEEN st @ new \<and> SEEN t' = SEEN t @ new \<and>
           FINAL_MOVE_LIST s' = FINAL_MOVE_LIST st @ p \<and> FINAL_MOVE_LIST t' = FINAL_MOVE_LIST t @ p"
  using assms
proof (induction g bs st arbitrary: t rule: solve_induct)
  case (call g bs st)
  show ?case
  proof (cases "count_list bs True = 1")
    case True
    then show ?thesis by (simp add: solve_unfold)
  next
    case False
    note c = this
    show ?thesis
    proof (cases "get_valid_moves g bs")
      case (Inl e)
      with c show ?thesis by (simp add: solve_unfold)
    next
      case (Inr moves)
      show ?thesis
      proof (cases "moves = []")
        case True
        with c Inr show ?thesis by (simp add: solve_unfold)
      next
        case False
        let ?Q = "\<lambda>(u :: state) (v :: state).
                    (\<exists>new. SEEN u = SEEN st @ new \<and> SEEN v = SEEN t @ new) \<and>
                    (\<exists>p. FINAL_MOVE_LIST u = FINAL_MOVE_LIST st @ p \<and>
                         FINAL_MOVE_LIST v = FINAL_MOVE_LIST t @ p)"
        let ?I = "\<lambda>(u :: state) (v :: state).
                    (\<exists>new. SEEN u = SEEN st @ new \<and> SEEN v = SEEN t @ new) \<and>
                    FINAL_MOVE_LIST u = FINAL_MOVE_LIST st \<and> FINAL_MOVE_LIST v = FINAL_MOVE_LIST t"
        have "\<exists>ro u' v'. for_loop (solve_body g bs) moves st = (ro, u') \<and>
                for_loop (solve_body g bs) moves t = (ro, v') \<and>
                (case ro of None \<Rightarrow> ?I u' v' | Some a \<Rightarrow> ?Q u' v')"
        proof (rule for_loop_rel[where I = ?I and Q = ?Q])
          show "?I st t" by simp
        next
          fix m and u v :: state
          assume m: "m \<in> set moves" and I: "?I u v"
          from I obtain new where new: "SEEN u = SEEN st @ new" "SEEN v = SEEN t @ new" by blast
          from I have pu: "FINAL_MOVE_LIST u = FINAL_MOVE_LIST st"
            and pv: "FINAL_MOVE_LIST v = FINAL_MOVE_LIST t" by simp_all
          from new call.prems have sv: "set (SEEN u) = set (SEEN v)" by simp
          let ?u1 = "u\<lparr>N_MOVES := N_MOVES u + 1\<rparr>" and ?v1 = "v\<lparr>N_MOVES := N_MOVES v + 1\<rparr>"
          have I1: "?I ?u1 ?v1" using new pu pv by simp
          then have Q1: "?Q ?u1 ?v1" by simp
          show "\<exists>ro u' v'. solve_body g bs m u = (ro, u') \<and> solve_body g bs m v = (ro, v') \<and>
                  (case ro of None \<Rightarrow> ?I u' v' | Some a \<Rightarrow> ?Q u' v')"
          proof (cases "make_move bs m")
            case (Inl e)
            then have "solve_body g bs m u = (Some (Inl e), ?u1)" "solve_body g bs m v = (Some (Inl e), ?v1)"
              by (simp_all add: solve_body_eq)
            with Q1 show ?thesis by simp
          next
            case (Inr nb)
            note mm = this
            show ?thesis
            proof (cases "bs_hash nb \<in> set (SEEN u)")
              case True
              with mm sv have "solve_body g bs m u = (None, ?u1)" "solve_body g bs m v = (None, ?v1)"
                by (simp_all add: solve_body_eq)
              with I1 show ?thesis by simp
            next
              case h: False
              with sv have hv: "bs_hash nb \<notin> set (SEEN v)" by simp
              have "set (SEEN (enter m nb u)) = set (SEEN (enter m nb v))"
                using sv by (simp add: enter_def)
              from call.IH[OF c \<open>get_valid_moves g bs = Inr moves\<close> m mm h this]
              obtain r s3 t3 p new' where
                r: "solve g nb (enter m nb u) = (r, s3)" "solve g nb (enter m nb v) = (r, t3)"
                   "SEEN s3 = SEEN (enter m nb u) @ new'" "SEEN t3 = SEEN (enter m nb v) @ new'"
                   "FINAL_MOVE_LIST s3 = FINAL_MOVE_LIST (enter m nb u) @ p"
                   "FINAL_MOVE_LIST t3 = FINAL_MOVE_LIST (enter m nb v) @ p"
                by blast
              have s3: "SEEN s3 = SEEN st @ (new @ bs_hash nb # new')"
                  "SEEN t3 = SEEN t @ (new @ bs_hash nb # new')"
                using r(3,4) new by (simp_all add: enter_def)
              have p3: "FINAL_MOVE_LIST s3 = FINAL_MOVE_LIST st @ (m # p)"
                  "FINAL_MOVE_LIST t3 = FINAL_MOVE_LIST t @ (m # p)"
                using r(5,6) pu pv by (simp_all add: enter_def)
              have Q3: "?Q s3 t3" using s3 p3 by blast
              have bu: "solve_body g bs m u =
                  (case r of Inl e \<Rightarrow> (Some (Inl e), s3)
                   | Inr True \<Rightarrow> (Some (Inr True), s3)
                   | Inr False \<Rightarrow>
                       (case pop (FINAL_MOVE_LIST s3) of
                          Inl e \<Rightarrow> (Some (Inl e), s3)
                        | Inr q \<Rightarrow> (None, s3\<lparr>FINAL_MOVE_LIST := q\<rparr>)))"
                using mm h r(1) by (simp add: solve_body_eq)
              have bv: "solve_body g bs m v =
                  (case r of Inl e \<Rightarrow> (Some (Inl e), t3)
                   | Inr True \<Rightarrow> (Some (Inr True), t3)
                   | Inr False \<Rightarrow>
                       (case pop (FINAL_MOVE_LIST t3) of
                          Inl e \<Rightarrow> (Some (Inl e), t3)
                        | Inr q \<Rightarrow> (None, t3\<lparr>FINAL_MOVE_LIST := q\<rparr>)))"
                using mm hv r(2) by (simp add: solve_body_eq)
              show ?thesis
              proof (cases r)
                case (Inl e)
                with bu bv Q3 show ?thesis by simp
              next
                case (Inr ok)
                show ?thesis
                proof (cases ok)
                  case True
                  with Inr bu bv Q3 show ?thesis by simp
                next
                  case f: False
                  with Inr r(1) have "solve g nb (enter m nb u) = (Inr False, s3)" by simp
                  from solve_path[OF this] r(5) have "p = []" by simp
                  with p3 have pp: "pop (FINAL_MOVE_LIST s3) = Inr (FINAL_MOVE_LIST st)"
                      "pop (FINAL_MOVE_LIST t3) = Inr (FINAL_MOVE_LIST t)"
                    by simp_all
                  have "?I (s3\<lparr>FINAL_MOVE_LIST := FINAL_MOVE_LIST st\<rparr>)
                           (t3\<lparr>FINAL_MOVE_LIST := FINAL_MOVE_LIST t\<rparr>)"
                    using s3 by simp
                  with f Inr bu bv pp show ?thesis by simp
                qed
              qed
            qed
          qed
        qed
        then obtain ro u' v' where
          l: "for_loop (solve_body g bs) moves st = (ro, u')" "for_loop (solve_body g bs) moves t = (ro, v')"
            "case ro of None \<Rightarrow> ?I u' v' | Some a \<Rightarrow> ?Q u' v'" by blast
        show ?thesis
        proof (cases ro)
          case None
          with l have "?Q u' v'" by simp
          with None l(1,2) c Inr False show ?thesis by (auto simp: solve_unfold)
        next
          case (Some a)
          with l have "?Q u' v'" by simp
          with Some l(1,2) c Inr False show ?thesis by (auto simp: solve_unfold)
        qed
      qed
    qed
  qed
qed

section \<open>Properties of the move generator\<close>

text \<open>
  Claim C4. Every move \<open>(src, mid, dest)\<close> that the move generator returns for a board
  has pegs at \<open>src\<close> and \<open>mid\<close> and no peg at \<open>dest\<close> in that board; \<open>dest\<close> is a graph
  neighbour of \<open>mid\<close> and not a graph neighbour of \<open>src\<close>; and when \<open>src\<close> and \<open>mid\<close> are
  on the same level, \<open>dest\<close> is on that level too. The guards of \<open>get_valid_moves\<close> give
  this for every graph, so in particular for the graphs built for 4, 5 and 6 rows.
\<close>

theorem generated_moves_pass_all_checks:
  assumes "get_valid_moves g bs = Inr moves" and "(src, mid, dest) \<in> set moves"
  shows "py_get bs src = Inr True \<and> py_get bs mid = Inr True \<and> py_get bs dest = Inr False \<and>
         (\<exists>mid_nbrs. neighbors g mid = Inr mid_nbrs \<and> dest \<in> set mid_nbrs) \<and>
         (\<exists>src_nbrs. neighbors g src = Inr src_nbrs \<and> dest \<notin> set src_nbrs) \<and>
         (\<exists>src_lvl mid_lvl. node_level g src = Inr src_lvl \<and> node_level g mid = Inr mid_lvl \<and>
            (src_lvl = mid_lvl \<longrightarrow> node_level g dest = Inr src_lvl))"
proof -
  from get_valid_moves_mem[OF assms] obtain src' mids mid' where
    s: "src' < length bs" "bs ! src'" and c: "check_move g bs src' mid' = Inr (Some (src, mid, dest))"
    by blast
  from check_move_Some[OF c] s show ?thesis by auto
qed

theorem generated_moves_pass_all_checks_witness:
  "get_valid_moves (generate_triangle_graph 4) example_board = Inr [(3, 1, 0), (5, 2, 0)] \<and>
   py_get example_board 3 = Inr True \<and> py_get example_board 1 = Inr True \<and>
   py_get example_board 0 = Inr False \<and>
   (\<exists>mid_nbrs. neighbors (generate_triangle_graph 4) 1 = Inr mid_nbrs \<and> 0 \<in> set mid_nbrs) \<and>
   (\<exists>src_nbrs. neighbors (generate_triangle_graph 4) 3 = Inr src_nbrs \<and> 0 \<notin> set src_nbrs)"
proof -
  have h: "get_valid_moves (generate_triangle_graph 4) example_board = Inr [(3, 1, 0), (5, 2, 0)]"
    by code_simp
  have m: "(3, 1, 0) \<in> set [(3, 1, 0), (5, 2, 0) :: move]" by simp
  from generated_moves_pass_all_checks[OF h m] h show ?thesis by blast
qed

text \<open>
  Claim C6. Applying a move that the move generator returned for a board (clearing
  \<open>src\<close> and \<open>mid\<close>, setting \<open>dest\<close>) succeeds and yields a board of the same length
  with exactly one peg fewer.
\<close>

theorem generated_move_removes_one_peg:
  assumes "get_valid_moves g bs = Inr moves" and "m \<in> set moves"
  shows "\<exists>new_bs. make_move bs m = Inr new_bs \<and> length new_bs = length bs \<and>
           count_list new_bs True + 1 = count_list bs True"
  using assms by (rule generated_move_count)

theorem generated_move_removes_one_peg_witness:
  "get_valid_moves (generate_triangle_graph 4) example_board = Inr [(3, 1, 0), (5, 2, 0)] \<and>
   (\<exists>new_bs. make_move example_board (5, 2, 0) = Inr new_bs \<and>
      length new_bs = length example_board \<and>
      count_list new_bs True + 1 = count_list example_board True)"
proof -
  have h: "get_valid_moves (generate_triangle_graph 4) example_board = Inr [(3, 1, 0), (5, 2, 0)]"
    by code_simp
  have m: "(5, 2, 0) \<in> set [(3, 1, 0), (5, 2, 0) :: move]" by simp
  from generated_move_removes_one_peg[OF h m] h show ?thesis by blast
qed

section \<open>Properties of the search\<close>

text \<open>
  Claim C8, as stated, fails on the program. On a board with exactly one peg \<open>solve\<close> returns
  success at once and leaves the path alone, so the path it returns is the path it found,
  empty or not. The call of \<open>solve\<close> on the board with pegs at 0 and 1, from the initial
  state, makes its recursive call on the board with the one peg at 3 when the path holds the
  jump \<open>(0, 1, 3)\<close>; that call returns success, and the path it returns is this one move.
\<close>

theorem one_peg_call_returns_path_found:
  "count_list peg_at_3 True = 1 \<and>
   make_move two_pegs (0, 1, 3) = Inr peg_at_3 \<and>
   enter (0, 1, 3) peg_at_3 init_state = used_state \<and>
   solve (generate_triangle_graph 4) peg_at_3 used_state = (Inr True, used_state) \<and>
   FINAL_MOVE_LIST (snd (solve (generate_triangle_graph 4) peg_at_3 used_state)) = [(0, 1, 3)]"
  by code_simp

text \<open>
  Claim C8, amended. On a board with exactly one peg, \<open>solve\<close> returns success at once, for
  every graph, and returns the search state untouched: the move path it returns is the path
  it found at entry. That path is empty when the call is made in the initial state of
  \<open>main\<close>.
\<close>

theorem solve_one_peg:
  assumes "count_list bs True = 1"
  shows "solve g bs st = (Inr True, st) \<and>
         FINAL_MOVE_LIST (snd (solve g bs st)) = FINAL_MOVE_LIST st \<and>
         FINAL_MOVE_LIST (snd (solve g bs init_state)) = []"
  using assms by (simp add: solve.simps init_state_def)

theorem solve_one_peg_witness:
  "count_list [False, False, True] True = 1 \<and>
   solve [] [False, False, True] init_state = (Inr True, init_state) \<and>
   FINAL_MOVE_LIST (snd (solve [] [False, False, True] init_state)) = [] \<and>
   FINAL_MOVE_LIST (snd (solve [] [False, False, True] used_state)) = FINAL_MOVE_LIST used_state"
proof -
  have h: "count_list [False, False, True] True = 1" by simp
  from solve_one_peg[OF h, of "[]" init_state] solve_one_peg[OF h, of "[]" used_state] h
  show ?thesis by simp
qed

text \<open>
  Claim C9. When \<open>solve\<close> returns failure, the solution path it leaves behind is the
  path it was given: every move appended in a branch that failed has been popped again.
\<close>

theorem failed_solve_restores_path:
  assumes "fst (solve g bs st) = Inr False"
  shows "FINAL_MOVE_LIST (snd (solve g bs st)) = FINAL_MOVE_LIST st"
proof -
  from assms have "solve g bs st = (Inr False, snd (solve g bs st))"
    by (metis prod.collapse)
  from solve_path[OF this] show ?thesis by simp
qed

theorem failed_solve_restores_path_witness:
  "fst (solve (generate_triangle_graph 4) three_pegs init_state) = Inr False \<and>
   SEEN (snd (solve (generate_triangle_graph 4) three_pegs init_state)) = [''0001010000''] \<and>
   FINAL_MOVE_LIST (snd (solve (generate_triangle_graph 4) three_pegs init_state)) =
     FINAL_MOVE_LIST init_state"
proof -
  have h: "fst (solve (generate_triangle_graph 4) three_pegs init_state) = Inr False"
    by code_simp
  have s: "SEEN (snd (solve (generate_triangle_graph 4) three_pegs init_state)) = [''0001010000'']"
    by code_simp
  from failed_solve_restores_path[OF h] h s show ?thesis by blast
qed

section \<open>The visited set across invocations\<close>

lemma try_start_seen:
  assumes "try_start g node s = (r, s')"
  shows "\<exists>new. SEEN s' = SEEN s @ new \<and> distinct new \<and> set new \<inter> set (SEEN s) = {}"
proof (cases "py_set (replicate (length g) True) node False")
  case (Inl e)
  with assms show ?thesis by (simp add: try_start_def)
next
  case (Inr board_state)
  obtain x s3 where x: "solve g board_state s = (x, s3)" by (cases "solve g board_state s")
  with assms Inr have "s' = s3"
    by (auto simp: try_start_def split: sum.splits bool.splits)
  with solve_seen[OF x] show ?thesis by simp
qed

lemma for_loop_entries_seen:
  assumes "distinct (SEEN s)"
  shows "sorted_wrt (\<lambda>a b. prefix (SEEN a) (SEEN b)) (for_loop_entries (try_start g) xs s) \<and>
         (\<forall>e \<in> set (for_loop_entries (try_start g) xs s). distinct (SEEN e) \<and> prefix (SEEN s) (SEEN e))"
  using assms
proof (induction xs arbitrary: s)
  case Nil
  then show ?case by simp
next
  case (Cons x xs)
  obtain r s' where b: "try_start g x s = (r, s')" by (cases "try_start g x s")
  from try_start_seen[OF b] obtain new where
    new: "SEEN s' = SEEN s @ new" "distinct new" "set new \<inter> set (SEEN s) = {}" by blast
  with Cons.prems have d: "distinct (SEEN s')" and p: "prefix (SEEN s) (SEEN s')" by auto
  show ?case
  proof (cases r)
    case None
    from Cons.IH[OF d] p have
      "sorted_wrt (\<lambda>a b. prefix (SEEN a) (SEEN b)) (for_loop_entries (try_start g) xs s')"
      "\<forall>e \<in> set (for_loop_entries (try_start g) xs s'). distinct (SEEN e) \<and> prefix (SEEN s) (SEEN e)"
      by (auto intro: prefix_order.trans)
    with None b Cons.prems show ?thesis by simp
  next
    case (Some a)
    with b Cons.prems show ?thesis by simp
  qed
qed

lemma for_loop_entries_head:
  "for_loop_entries body xs s \<noteq> [] \<Longrightarrow> for_loop_entries body xs s ! 0 = s"
  by (cases xs) simp_all

lemma for_loop_entries_step:
  assumes "Suc k < length (for_loop_entries body xs s)"
  shows "k < length xs \<and>
         body (xs ! k) (for_loop_entries body xs s ! k) = (None, for_loop_entries body xs s ! Suc k)"
  using assms
proof (induction xs arbitrary: s k)
  case Nil
  then show ?case by simp
next
  case (Cons x xs)
  obtain r s' where b: "body x s = (r, s')" by (cases "body x s")
  with Cons.prems have r: "r = None" by (cases r) simp_all
  with b have e: "for_loop_entries body (x # xs) s = s # for_loop_entries body xs s'" by simp
  with Cons.prems have l: "k < length (for_loop_entries body xs s')" by simp
  show ?case
  proof (cases k)
    case 0
    from l have "for_loop_entries body xs s' \<noteq> []" by auto
    from for_loop_entries_head[OF this] 0 b r e show ?thesis by simp
  next
    case (Suc j)
    with l have "Suc j < length (for_loop_entries body xs s')" by simp
    from Cons.IH[OF this] Suc e show ?thesis by simp
  qed
qed

lemma try_start_None:
  assumes "try_start g node s = (None, s')"
  shows "\<exists>board. py_set (replicate (length g) True) node False = Inr board \<and>
           solve g board s = (Inr False, s')"
  using assms
  by (auto simp: try_start_def split: sum.splits bool.splits prod.splits)

lemma solve_entries_step:
  assumes "Suc k < length (solve_entries n)"
  shows "\<exists>board. py_set (replicate (length (generate_triangle_graph n)) True) (start_nodes n ! k) False
             = Inr board \<and>
           solve (generate_triangle_graph n) board (solve_entries n ! k) =
             (Inr False, solve_entries n ! Suc k)"
  using for_loop_entries_step[OF assms[unfolded solve_entries_def]]
  unfolding solve_entries_def[symmetric] by (simp only: try_start_None)

text \<open>
  Claim C1, as stated, fails on the program. The set \<open>SEEN\<close> is created once by \<open>main\<close>, before the
  loop over the starting positions, and every call of \<open>solve\<close> works on the set it finds.
  The run of \<open>main\<close> for four rows shows it: the first call, with peg 0 removed, fails; the
  encoding \<open>1010111111\<close>, absent when that call started, is in the set that the second
  call, with peg 1 removed, starts with.
\<close>

theorem visited_set_survives_invocation:
  "length (solve_entries 4) = 2 \<and> SEEN (solve_entries 4 ! 0) = [] \<and>
   ''1010111111'' \<in> set (SEEN (solve_entries 4 ! 1))"
  by code_simp

text \<open>
  Claim C1, amended. \<open>solve\<close> only ever extends the visited set, and only with encodings
  that are not yet in it, so every encoding is added at most once, within one call and over
  the whole run; nothing is discarded when a call returns. In the run of \<open>main\<close> nothing
  is reset between two calls of \<open>solve\<close> either: the globals that a call after the first
  starts with are the globals that the call before it, which failed, has left. So the
  visited set that a call starts with begins with the set that any earlier call has left,
  that is, with what that call found and every encoding it added, and it holds no encoding
  twice.
\<close>

theorem visited_set_only_grows:
  "(\<exists>new. SEEN (snd (solve g bs st)) = SEEN st @ new \<and> distinct new \<and>
      set new \<inter> set (SEEN st) = {}) \<and>
   (\<forall>k. Suc k < length (solve_entries n_rows) \<longrightarrow>
      (\<exists>board. py_set (replicate (length (generate_triangle_graph n_rows)) True)
                 (start_nodes n_rows ! k) False = Inr board \<and>
         solve (generate_triangle_graph n_rows) board (solve_entries n_rows ! k) =
           (Inr False, solve_entries n_rows ! Suc k))) \<and>
   (\<forall>k j. k < j \<and> j < length (solve_entries n_rows) \<longrightarrow>
      (\<exists>board. py_set (replicate (length (generate_triangle_graph n_rows)) True)
                 (start_nodes n_rows ! k) False = Inr board \<and>
         prefix (SEEN (snd (solve (generate_triangle_graph n_rows) board (solve_entries n_rows ! k))))
           (SEEN (solve_entries n_rows ! j)))) \<and>
   sorted_wrt (\<lambda>a b. prefix (SEEN a) (SEEN b)) (solve_entries n_rows) \<and>
   (\<forall>e \<in> set (solve_entries n_rows). distinct (SEEN e))"
proof -
  let ?g = "generate_triangle_graph n_rows" and ?E = "solve_entries n_rows"
  have "solve g bs st = (fst (solve g bs st), snd (solve g bs st))" by simp
  from solve_seen[OF this] have 1: "\<exists>new. SEEN (snd (solve g bs st)) = SEEN st @ new \<and>
      distinct new \<and> set new \<inter> set (SEEN st) = {}" .
  have "distinct (SEEN init_state)" by (simp add: init_state_def)
  from for_loop_entries_seen[OF this, of ?g "start_nodes n_rows"]
  have 4: "sorted_wrt (\<lambda>a b. prefix (SEEN a) (SEEN b)) ?E"
    and 5: "\<forall>e \<in> set ?E. distinct (SEEN e)"
    unfolding solve_entries_def by blast+
  have 2: "\<exists>board. py_set (replicate (length ?g) True) (start_nodes n_rows ! k) False = Inr board \<and>
      solve ?g board (?E ! k) = (Inr False, ?E ! Suc k)" if "Suc k < length ?E" for k
    using solve_entries_step[OF that] .
  have 3: "\<exists>board. py_set (replicate (length ?g) True) (start_nodes n_rows ! k) False = Inr board \<and>
      prefix (SEEN (snd (solve ?g board (?E ! k)))) (SEEN (?E ! j))"
    if kj: "k < j \<and> j < length ?E" for k j
  proof -
    from kj have "Suc k < length ?E" by simp
    from 2[OF this] obtain board where
      b: "py_set (replicate (length ?g) True) (start_nodes n_rows ! k) False = Inr board"
         "solve ?g board (?E ! k) = (Inr False, ?E ! Suc k)" by blast
    have "prefix (SEEN (?E ! Suc k)) (SEEN (?E ! j))"
    proof (cases "Suc k = j")
      case True
      then show ?thesis by simp
    next
      case False
      with kj have "Suc k < j" "j < length ?E" by simp_all
      from sorted_wrt_nth_less[OF 4 this] show ?thesis .
    qed
    with b show ?thesis by simp
  qed
  from 1 2 3 4 5 show ?thesis by blast
qed

theorem visited_set_only_grows_witness:
  "length (solve_entries 4) = 2 \<and>
   py_set (replicate (length (generate_triangle_graph 4)) True) (start_nodes 4 ! 0) False =
     Inr example_board \<and>
   solve (generate_triangle_graph 4) example_board (solve_entries 4 ! 0) =
     (Inr False, solve_entries 4 ! Suc 0) \<and>
   prefix (SEEN (snd (solve (generate_triangle_graph 4) example_board (solve_entries 4 ! 0))))
     (SEEN (solve_entries 4 ! 1)) \<and>
   length (SEEN (solve_entries 4 ! 1)) = 41 \<and>
   distinct (SEEN (solve_entries 4 ! 1))"
proof -
  have l: "length (solve_entries 4) = 2" by code_simp
  have n: "length (SEEN (solve_entries 4 ! 1)) = 41" by code_simp
  have p: "py_set (replicate (length (generate_triangle_graph 4)) True) (start_nodes 4 ! 0) False =
     Inr example_board" by code_simp
  from l have m: "solve_entries 4 ! 1 \<in> set (solve_entries 4)" by simp
  note t = visited_set_only_grows[of "generate_triangle_graph 4" three_pegs init_state 4]
  from t l have "\<exists>board. py_set (replicate (length (generate_triangle_graph 4)) True)
        (start_nodes 4 ! 0) False = Inr board \<and>
      solve (generate_triangle_graph 4) board (solve_entries 4 ! 0) =
        (Inr False, solve_entries 4 ! Suc 0)"
    by simp
  with p have a: "solve (generate_triangle_graph 4) example_board (solve_entries 4 ! 0) =
        (Inr False, solve_entries 4 ! Suc 0)" by (auto simp del: py_set_Inr)
  from t m have d: "distinct (SEEN (solve_entries 4 ! 1))" by blast
  from a have "prefix (SEEN (snd (solve (generate_triangle_graph 4) example_board
      (solve_entries 4 ! 0)))) (SEEN (solve_entries 4 ! 1))" by simp
  with l n p a d show ?thesis by simp
qed

text \<open>
  Claim C2, as stated, fails on the program. The result of \<open>solve\<close> depends on the visited set it
  finds, and a call leaves its encodings there. On the four-row board with pegs at 0 and 1
  only, the first call succeeds with the single jump \<open>(0, 1, 3)\<close>; the same call made
  again right after it finds the resulting board already visited and reports failure.
\<close>

theorem second_solve_differs:
  "fst (solve (generate_triangle_graph 4) two_pegs init_state) = Inr True \<and>
   fst (solve (generate_triangle_graph 4) two_pegs
          (snd (solve (generate_triangle_graph 4) two_pegs init_state))) = Inr False"
  by code_simp

text \<open>
  Claim C2, amended. Two calls of \<open>solve\<close> with the same graph, the same board and visited
  sets of the same contents at entry, in whatever order the encodings were added, return
  the same result, add the same encodings in the same order, so leave visited sets of the
  same contents, and append the same moves to the path, whatever the path and the move
  counter were at entry.
\<close>

theorem solve_deterministic_given_visited_set:
  assumes "set (SEEN st) = set (SEEN (st' :: state))"
  shows "fst (solve g bs st) = fst (solve g bs st') \<and>
         set (SEEN (snd (solve g bs st))) = set (SEEN (snd (solve g bs st'))) \<and>
         (\<exists>new. SEEN (snd (solve g bs st)) = SEEN st @ new \<and>
                SEEN (snd (solve g bs st')) = SEEN st' @ new) \<and>
         (\<exists>p. FINAL_MOVE_LIST (snd (solve g bs st)) = FINAL_MOVE_LIST st @ p \<and>
              FINAL_MOVE_LIST (snd (solve g bs st')) = FINAL_MOVE_LIST st' @ p)"
proof -
  from solve_same_seen[OF assms, of g bs] obtain r s t p new where
    r: "solve g bs st = (r, s)" "solve g bs st' = (r, t)"
       "SEEN s = SEEN st @ new" "SEEN t = SEEN st' @ new"
       "FINAL_MOVE_LIST s = FINAL_MOVE_LIST st @ p" "FINAL_MOVE_LIST t = FINAL_MOVE_LIST st' @ p"
    by blast
  from r(3,4) assms have "set (SEEN s) = set (SEEN t)" by simp
  with r show ?thesis by auto
qed

theorem solve_deterministic_given_visited_set_witness:
  "set (SEEN seen_two) = set (SEEN seen_two_swapped) \<and>
   SEEN seen_two \<noteq> SEEN seen_two_swapped \<and>
   fst (solve (generate_triangle_graph 4) two_pegs seen_two) = Inr True \<and>
   fst (solve (generate_triangle_graph 4) two_pegs seen_two_swapped) = Inr True \<and>
   SEEN (snd (solve (generate_triangle_graph 4) two_pegs seen_two)) =
     SEEN seen_two @ [''0001000000''] \<and>
   SEEN (snd (solve (generate_triangle_graph 4) two_pegs seen_two_swapped)) =
     SEEN seen_two_swapped @ [''0001000000''] \<and>
   (\<exists>p. FINAL_MOVE_LIST (snd (solve (generate_triangle_graph 4) two_pegs seen_two)) =
          FINAL_MOVE_LIST seen_two @ p \<and>
        FINAL_MOVE_LIST (snd (solve (generate_triangle_graph 4) two_pegs seen_two_swapped)) =
          FINAL_MOVE_LIST seen_two_swapped @ p)"
proof -
  have h: "set (SEEN seen_two) = set (SEEN seen_two_swapped)"
    by (auto simp: seen_two_def seen_two_swapped_def)
  have d: "SEEN seen_two \<noteq> SEEN seen_two_swapped"
    by (simp add: seen_two_def seen_two_swapped_def)
  have t: "fst (solve (generate_triangle_graph 4) two_pegs seen_two) = Inr True"
    by code_simp
  have s: "SEEN (snd (solve (generate_triangle_graph 4) two_pegs seen_two)) =
     SEEN seen_two @ [''0001000000'']"
    by code_simp
  from solve_deterministic_given_visited_set[OF h, of "generate_triangle_graph 4" two_pegs] d h t s
  show ?thesis by auto
qed

section \<open>The shared visited set loses no solution\<close>

text \<open>
  When a call of \<open>solve\<close> fails, every board whose encoding it has added is unsolvable,
  and so is the board it was called on, provided the boards found in the visited set at
  entry were (those with no more pegs than the board of the call, the board itself
  apart). So the encodings that a failed call leaves behind prune only dead ends of the
  later calls: when \<open>main\<close> reports that it is unable to solve the puzzle, none of the
  starting boards it tried is solvable.
\<close>

lemma bs_hash_inj: "bs_hash a = bs_hash b \<Longrightarrow> a = b"
proof -
  have "inj (\<lambda>x :: bool. if x then CHR ''1'' else CHR ''0'')" by (auto simp: inj_def)
  then have "inj (map (\<lambda>x :: bool. if x then CHR ''1'' else CHR ''0''))" by (rule inj_mapI)
  moreover have "bs_hash = map (\<lambda>x :: bool. if x then CHR ''1'' else CHR ''0'')"
    by (rule ext) (simp add: bs_hash_def)
  ultimately have "inj bs_hash" by simp
  then show "bs_hash a = bs_hash b \<Longrightarrow> a = b" by (rule injD)
qed

lemma unsolvableI:
  assumes "count_list bs True \<noteq> 1"
    and "\<And>new_bs. recursive_call g bs new_bs \<Longrightarrow> \<not> solvable g new_bs"
  shows "\<not> solvable g bs"
proof
  assume "solvable g bs"
  then show False using assms by cases auto
qed

lemma solve_body_seen:
  assumes "solve_body g bs m u = (r, u')"
  shows "set (SEEN u) \<subseteq> set (SEEN u')"
  using assms
proof (cases rule: solve_body_cases)
  case (raised new_bs e)
  from solve_seen[OF raised(3)] show ?thesis by (auto simp: enter_def)
next
  case (found new_bs)
  from solve_seen[OF found(3)] show ?thesis by (auto simp: enter_def)
next
  case (failed new_bs s3)
  from solve_seen[OF failed(3)] failed(6) show ?thesis by (auto simp: enter_def)
next
  case (pop_failed new_bs)
  from solve_seen[OF pop_failed(3)] show ?thesis by (auto simp: enter_def)
qed auto

lemma solve_loop_seen:
  assumes "for_loop (solve_body g bs) ms u = (r, u')"
  shows "set (SEEN u) \<subseteq> set (SEEN u')"
proof -
  have "case for_loop (solve_body g bs) ms u of
          (None, s') \<Rightarrow> set (SEEN u) \<subseteq> set (SEEN s')
        | (Some v, s') \<Rightarrow> set (SEEN u) \<subseteq> set (SEEN s')"
    by (rule for_loop_inv[where I = "\<lambda>s. set (SEEN u) \<subseteq> set (SEEN s)"])
       (auto dest!: solve_body_seen split: option.splits)
  with assms show ?thesis by (auto split: option.splits)
qed

lemma solve_loop_children_seen:
  assumes "for_loop (solve_body g bs) ms u = (None, u')" "m \<in> set ms" "make_move bs m = Inr nb"
  shows "bs_hash nb \<in> set (SEEN u')"
  using assms
proof (induction ms arbitrary: u)
  case Nil
  then show ?case by simp
next
  case (Cons x ms)
  obtain r u1 where b: "solve_body g bs x u = (r, u1)" by (cases "solve_body g bs x u")
  with Cons.prems(1) have r: "r = None" and l: "for_loop (solve_body g bs) ms u1 = (None, u')"
    by (auto split: option.splits)
  show ?case
  proof (cases "m = x")
    case True
    from b[unfolded r] have "bs_hash nb \<in> set (SEEN u1)"
    proof (cases rule: solve_body_cases)
      case (seen new_bs)
      with True Cons.prems(3) show ?thesis by simp
    next
      case (failed new_bs s3)
      from solve_seen[OF failed(3)] failed(1,6) True Cons.prems(3)
      show ?thesis by (auto simp: enter_def)
    qed simp_all
    with solve_loop_seen[OF l] show ?thesis by auto
  next
    case False
    with Cons.prems(2) have "m \<in> set ms" by simp
    from Cons.IH[OF l this Cons.prems(3)] show ?thesis .
  qed
qed

lemma solve_seen_smaller:
  assumes "solve g bs st = (r, st')" "h \<in> set (SEEN st')" "h \<notin> set (SEEN st)"
  shows "\<exists>b. h = bs_hash b \<and> count_list b True < count_list bs True"
  using assms
proof (induction g bs st arbitrary: r st' h rule: solve_induct)
  case (call g bs st)
  from call.prems(1) show ?case
  proof (cases rule: solve_cases)
    case (loop moves ro)
    let ?I = "\<lambda>u :: state. \<forall>h \<in> set (SEEN u) - set (SEEN st).
                \<exists>b. h = bs_hash b \<and> count_list b True < count_list bs True"
    have "case for_loop (solve_body g bs) moves st of (None, s') \<Rightarrow> ?I s' | (Some v, s') \<Rightarrow> ?I s'"
    proof (rule for_loop_inv[where I = ?I])
      fix m and u :: state and ro' u'
      assume m: "m \<in> set moves" and I: "?I u" and b: "solve_body g bs m u = (ro', u')"
      have sub: "?I s3" if s: "solve g new_bs (enter m new_bs u) = (x, s3)"
        and hh: "bs_hash new_bs \<notin> set (SEEN u)" and mm: "make_move bs m = Inr new_bs" for new_bs x s3
      proof
        fix h assume h: "h \<in> set (SEEN s3) - set (SEEN st)"
        from generated_move_count[OF loop(2) m] mm
        have c: "count_list new_bs True < count_list bs True" by auto
        show "\<exists>b. h = bs_hash b \<and> count_list b True < count_list bs True"
        proof (cases "h \<in> set (SEEN (enter m new_bs u))")
          case True
          with h I c show ?thesis by (auto simp: enter_def)
        next
          case False
          from call.IH[OF loop(1,2) m mm hh s _ False] h c show ?thesis by fastforce
        qed
      qed
      from b have "?I u'"
      proof (cases rule: solve_body_cases)
        case (failed new_bs s3)
        from sub[OF failed(3,2,1)] failed(6) show ?thesis by simp
      next
        case (raised new_bs e)
        from sub[OF raised(3,2,1)] show ?thesis .
      next
        case (found new_bs)
        from sub[OF found(3,2,1)] show ?thesis .
      next
        case (pop_failed new_bs)
        from sub[OF pop_failed(3,2,1)] show ?thesis .
      qed (use I in auto)
      then show "case ro' of None \<Rightarrow> ?I u' | Some v \<Rightarrow> ?I u'" by (simp split: option.splits)
    qed simp
    with loop(4) call.prems(2,3) show ?thesis by (auto split: option.splits)
  qed (use call.prems in auto)
qed

lemma solve_failure_sound:
  assumes "dead_upto g (count_list bs True) (set (SEEN st) - {bs_hash bs})"
    and "solve g bs st = (Inr False, st')"
  shows "\<not> solvable g bs \<and> dead_upto g (count_list bs True) (set (SEEN st'))"
  using assms
proof (induction g bs st arbitrary: st' rule: solve_induct)
  case (call g bs st)
  let ?k = "count_list bs True"
  have finish: "\<not> solvable g bs \<and> dead_upto g ?k (set (SEEN s))"
    if d: "dead_upto g ?k (set (SEEN s) - {bs_hash bs})" and u: "\<not> solvable g bs" for s :: state
    unfolding dead_upto_def
  proof (intro conjI allI impI u)
    fix b assume b: "bs_hash b \<in> set (SEEN s) \<and> count_list b True \<le> ?k"
    show "\<not> solvable g b"
    proof (cases "bs_hash b = bs_hash bs")
      case True
      with bs_hash_inj u show ?thesis by blast
    next
      case False
      with b have "bs_hash b \<in> set (SEEN s) - {bs_hash bs} \<and> count_list b True \<le> ?k" by simp
      with d show ?thesis unfolding dead_upto_def by blast
    qed
  qed
  from call.prems(2) show ?case
  proof (cases rule: solve_cases)
    case no_moves
    have "\<not> solvable g bs"
      using no_moves(1,2) by (rule_tac unsolvableI) (auto simp: recursive_call_def)
    with finish[OF call.prems(1)[unfolded \<open>st' = st\<close>[symmetric]]] no_moves show ?thesis by simp
  next
    case (loop moves ro)
    let ?I = "\<lambda>u :: state. dead_upto g ?k (set (SEEN u) - {bs_hash bs})"
    have "case for_loop (solve_body g bs) moves st of
            (None, s') \<Rightarrow> ?I s' | (Some v, s') \<Rightarrow> v \<noteq> Inr False"
    proof (rule for_loop_inv[where I = ?I])
      show "?I st" by (rule call.prems(1))
    next
      fix m and u :: state and ro' u'
      assume m: "m \<in> set moves" and I: "?I u" and b: "solve_body g bs m u = (ro', u')"
      from b show "case ro' of None \<Rightarrow> ?I u' | Some v \<Rightarrow> v \<noteq> Inr False"
      proof (cases rule: solve_body_cases)
        case (failed nb s3)
        from generated_move_count[OF loop(2) m] failed(1)
        have c: "count_list nb True + 1 = ?k" by auto
        have entry: "dead_upto g (count_list nb True) (set (SEEN (enter m nb u)) - {bs_hash nb})"
          unfolding dead_upto_def
        proof (intro allI impI)
          fix b
          assume b: "bs_hash b \<in> set (SEEN (enter m nb u)) - {bs_hash nb} \<and>
            count_list b True \<le> count_list nb True"
          with c have "b \<noteq> bs" by auto
          then have "bs_hash b \<noteq> bs_hash bs" using bs_hash_inj by blast
          moreover from b have "bs_hash b \<in> set (SEEN u)" by (simp add: enter_def)
          moreover from b c have "count_list b True \<le> ?k" by simp
          ultimately have "bs_hash b \<in> set (SEEN u) - {bs_hash bs} \<and> count_list b True \<le> ?k"
            by simp
          with I show "\<not> solvable g b" unfolding dead_upto_def by blast
        qed
        from call.IH[OF loop(1,2) m failed(1,2) entry failed(3)]
        have ex: "dead_upto g (count_list nb True) (set (SEEN s3))" by simp
        have "?I s3"
          unfolding dead_upto_def
        proof (intro allI impI)
          fix b
          assume b: "bs_hash b \<in> set (SEEN s3) - {bs_hash bs} \<and> count_list b True \<le> ?k"
          show "\<not> solvable g b"
          proof (cases "count_list b True \<le> count_list nb True")
            case True
            with b have "bs_hash b \<in> set (SEEN s3) \<and> count_list b True \<le> count_list nb True"
              by simp
            with ex show ?thesis unfolding dead_upto_def by blast
          next
            case big: False
            show ?thesis
            proof (cases "bs_hash b \<in> set (SEEN (enter m nb u))")
              case True
              have "bs_hash b \<noteq> bs_hash nb" using big bs_hash_inj[of b nb] by auto
              with True have "bs_hash b \<in> set (SEEN u)" by (simp add: enter_def)
              with b have "bs_hash b \<in> set (SEEN u) - {bs_hash bs} \<and> count_list b True \<le> ?k"
                by simp
              with I show ?thesis unfolding dead_upto_def by blast
            next
              case False
              from b have "bs_hash b \<in> set (SEEN s3)" by simp
              from solve_seen_smaller[OF failed(3) this False] obtain b' where
                "bs_hash b = bs_hash b'" "count_list b' True < count_list nb True" by blast
              with bs_hash_inj[of b b'] big show ?thesis by simp
            qed
          qed
        qed
        with failed(5,6) show ?thesis by simp
      next
        case (seen new_bs)
        with I show ?thesis by simp
      qed simp_all
    qed
    with loop(4,5) have ro: "ro = None" and I': "?I st'"
      by (auto split: option.splits)
    have "\<not> solvable g bs"
    proof (rule unsolvableI[OF loop(1)])
      fix nb assume "recursive_call g bs nb"
      with loop(2) obtain m where m: "m \<in> set moves" "make_move bs m = Inr nb"
        by (auto simp: recursive_call_def)
      from solve_loop_children_seen[OF loop(4)[unfolded ro] m]
      have h: "bs_hash nb \<in> set (SEEN st')" .
      from generated_move_count[OF loop(2) m(1)] m(2)
      have c: "count_list nb True + 1 = ?k" by auto
      then have "nb \<noteq> bs" by auto
      then have "bs_hash nb \<noteq> bs_hash bs" using bs_hash_inj by blast
      with h c have "bs_hash nb \<in> set (SEEN st') - {bs_hash bs} \<and> count_list nb True \<le> ?k"
        by simp
      with I' show "\<not> solvable g nb" unfolding dead_upto_def by blast
    qed
    from finish[OF I' this] show ?thesis .
  qed simp_all
qed

lemma count_list_replicate_self: "count_list (replicate n x) x = n"
  by (induction n) simp_all

lemma try_starts_sound:
  assumes "for_loop (try_start g) nodes u = (None, u')"
    and "dead_upto g (length g - 1) (set (SEEN u))"
  shows "dead_upto g (length g - 1) (set (SEEN u')) \<and>
         (\<forall>node \<in> set nodes. \<forall>board.
            py_set (replicate (length g) True) node False = Inr board \<longrightarrow> \<not> solvable g board)"
  using assms
proof (induction nodes arbitrary: u)
  case Nil
  then show ?case by simp
next
  case (Cons node nodes)
  obtain r u1 where t: "try_start g node u = (r, u1)" by (cases "try_start g node u")
  with Cons.prems(1) have r: "r = None" and l: "for_loop (try_start g) nodes u1 = (None, u')"
    by (auto split: option.splits)
  from t r obtain board where
    b: "py_set (replicate (length g) True) node False = Inr board"
    and s: "solve g board u = (Inr False, u1)"
    by (auto simp: try_start_def split: sum.splits bool.splits prod.splits)
  from b have n: "node < length g" "board = (replicate (length g) True)[node := False]" by auto
  from count_list_update[of node "replicate (length g) True" False True] n
  have c: "count_list board True = length g - 1" by (simp add: count_list_replicate_self)
  from Cons.prems(2) have "dead_upto g (count_list board True) (set (SEEN u) - {bs_hash board})"
    unfolding c dead_upto_def by blast
  from solve_failure_sound[OF this s] c have
    d: "\<not> solvable g board" "dead_upto g (length g - 1) (set (SEEN u1))" by simp_all
  from Cons.IH[OF l d(2)] have
    "dead_upto g (length g - 1) (set (SEEN u'))"
    "\<forall>node \<in> set nodes. \<forall>board.
       py_set (replicate (length g) True) node False = Inr board \<longrightarrow> \<not> solvable g board"
    by blast+
  with d(1) b show ?case by (simp del: py_set_Inr)
qed

lemma try_starts_never_unable:
  assumes "for_loop (try_start g) nodes u = (Some v, u')"
  shows "v \<noteq> Inr Unable"
proof -
  have "case for_loop (try_start g) nodes u of (None, s') \<Rightarrow> True | (Some v, s') \<Rightarrow> v \<noteq> Inr Unable"
    by (rule for_loop_inv[where I = "\<lambda>s. True"])
       (auto simp: try_start_def split: sum.splits bool.splits prod.splits option.splits)
  with assms show ?thesis by simp
qed

lemma main_unable_sound:
  assumes "main n = (Inr Unable, s)"
  shows "\<forall>node \<in> set (start_nodes n). \<forall>board.
           py_set (replicate (length (generate_triangle_graph n)) True) node False = Inr board \<longrightarrow>
           \<not> solvable (generate_triangle_graph n) board"
proof -
  let ?g = "generate_triangle_graph n"
  from assms try_starts_never_unable[of ?g "start_nodes n" init_state]
  have l: "for_loop (try_start ?g) (start_nodes n) init_state = (None, s)"
    by (auto simp: main_def Let_def split: if_splits prod.splits option.splits)
  have "dead_upto ?g (length ?g - 1) (set (SEEN init_state))"
    by (simp add: dead_upto_def init_state_def)
  from try_starts_sound[OF l this] show ?thesis by simp
qed

section \<open>The graphs for four, five and six rows\<close>

lemma graph_shape_4:
  "int (length (generate_triangle_graph 4)) = triangular_number 4 \<and>
   map fst (generate_triangle_graph 4) = [0..<length (generate_triangle_graph 4)] \<and>
   (\<forall>(u, v) \<in> set (edges (generate_triangle_graph 4)). adjacent_rows (generate_triangle_graph 4) u v)"
  by code_simp

lemma graph_shape_5:
  "int (length (generate_triangle_graph 5)) = triangular_number 5 \<and>
   map fst (generate_triangle_graph 5) = [0..<length (generate_triangle_graph 5)] \<and>
   (\<forall>(u, v) \<in> set (edges (generate_triangle_graph 5)). adjacent_rows (generate_triangle_graph 5) u v)"
  by code_simp

lemma graph_shape_6:
  "int (length (generate_triangle_graph 6)) = triangular_number 6 \<and>
   map fst (generate_triangle_graph 6) = [0..<length (generate_triangle_graph 6)] \<and>
   (\<forall>(u, v) \<in> set (edges (generate_triangle_graph 6)). adjacent_rows (generate_triangle_graph 6) u v)"
  by code_simp

lemma jumps_straight_4: "jumps_straight (generate_triangle_graph 4)" by code_simp
lemma jumps_straight_5: "jumps_straight (generate_triangle_graph 5)" by code_simp
lemma jumps_straight_6: "jumps_straight (generate_triangle_graph 6)" by code_simp

lemma wf_graph_4: "wf_graph (generate_triangle_graph 4)" by code_simp
lemma wf_graph_5: "wf_graph (generate_triangle_graph 5)" by code_simp
lemma wf_graph_6: "wf_graph (generate_triangle_graph 6)" by code_simp

lemma built_graph_ok:
  assumes "n \<in> {4, 5, 6}"
  shows "jumps_straight (generate_triangle_graph n) \<and> wf_graph (generate_triangle_graph n)"
  using assms jumps_straight_4 jumps_straight_5 jumps_straight_6 wf_graph_4 wf_graph_5 wf_graph_6
  by auto

lemma triangle_graph_lengths:
  assumes "n \<in> {4, 5, 6}"
  shows "int (length (generate_triangle_graph n)) = triangular_number n"
  using assms graph_shape_4 graph_shape_5 graph_shape_6 by auto

text \<open>
  Claim C5. For 4, 5 and 6 rows the graph that is built has exactly \<open>T(n) = n(n+1)/2\<close>
  nodes, the positions \<open>0 .. T(n) - 1\<close> in order, and the levels of the two ends of every
  edge differ by at most one.
\<close>

theorem triangle_graph_shape:
  assumes "n \<in> {4, 5, 6}"
  shows "int (length (generate_triangle_graph n)) = triangular_number n \<and>
         map fst (generate_triangle_graph n) = [0..<length (generate_triangle_graph n)] \<and>
         (\<forall>(u, v) \<in> set (edges (generate_triangle_graph n)).
            adjacent_rows (generate_triangle_graph n) u v)"
  using assms graph_shape_4 graph_shape_5 graph_shape_6 by auto

theorem triangle_graph_shape_witness:
  "(5 :: int) \<in> {4, 5, 6} \<and>
   int (length (generate_triangle_graph 5)) = triangular_number 5 \<and>
   length (generate_triangle_graph 5) = 15 \<and>
   (7, 12) \<in> set (edges (generate_triangle_graph 5)) \<and>
   adjacent_rows (generate_triangle_graph 5) 7 12"
proof -
  have n: "(5 :: int) \<in> {4, 5, 6}" by simp
  have e: "(7, 12) \<in> set (edges (generate_triangle_graph 5))" by code_simp
  have l: "length (generate_triangle_graph 5) = 15" by code_simp
  from triangle_graph_shape[OF n] e n l show ?thesis by blast
qed

lemma position_inverts_numbering:
  "\<forall>i \<in> set [0..<6]. \<forall>j \<in> set [0..<i + 1]. position (i * (i + 1) div 2 + j) = (i, j)"
  by code_simp

section \<open>A reported solution replays\<close>

lemma check_move_jump_target:
  assumes "check_move g bs src mid = Inr (Some m)"
  shows "\<exists>dest. m = (src, mid, dest) \<and> jump_target g src mid = Some dest"
proof -
  from check_move_Some[OF assms] obtain dest mid_nbrs src_nbrs src_lvl mid_lvl where
    *: "m = (src, mid, dest)" "neighbors g mid = Inr mid_nbrs" "dest \<in> set mid_nbrs"
       "neighbors g src = Inr src_nbrs" "dest \<notin> set src_nbrs"
       "node_level g src = Inr src_lvl" "node_level g mid = Inr mid_lvl"
       "src_lvl = mid_lvl \<longrightarrow> node_level g dest = Inr mid_lvl"
       "int dest = (if src_lvl \<noteq> mid_lvl then 2 * int mid - int src + 1 else 2 * int mid - int src)"
    by blast
  have "jump_target g src mid = Some dest"
  proof (cases "src_lvl = mid_lvl")
    case True
    with *(9) have d: "2 * int mid - int src = int dest" by simp
    from * True show ?thesis
      unfolding jump_target_def by (auto simp: Let_def d)
  next
    case False
    with *(9) have d: "2 * int mid - int src + 1 = int dest" by simp
    from * False show ?thesis
      unfolding jump_target_def by (auto simp: Let_def d)
  qed
  with *(1) show ?thesis by blast
qed

lemma generated_move_legal:
  assumes "jumps_straight g" "get_valid_moves g bs = Inr moves" "m \<in> set moves"
  shows "legal_move g bs m"
proof -
  from get_valid_moves_mem[OF assms(2,3)] obtain src mids mid where
    s: "src < length g" "src < length bs" "bs ! src" "neighbors g src = Inr mids" "mid \<in> set mids"
    and c: "check_move g bs src mid = Inr (Some m)"
    by blast
  from check_move_jump_target[OF c] obtain dest where
    m: "m = (src, mid, dest)" and j: "jump_target g src mid = Some dest" by blast
  from assms(1) s(1,4,5) j have st: "straight_jump (src, mid, dest)"
    unfolding jumps_straight_def by force
  from check_move_Some[OF c] m have
    b: "mid < length bs" "bs ! mid" "dest < length bs" "\<not> bs ! dest"
    and n: "is_neighbor g mid dest"
    by (auto simp: is_neighbor_def)
  from s(4,5) have "is_neighbor g src mid" by (simp add: is_neighbor_def)
  with s b n st m show ?thesis by (simp add: legal_move_def)
qed

lemma solve_success_replay:
  assumes "jumps_straight g" and "solve g bs st = (Inr True, st')"
  shows "\<exists>p b. FINAL_MOVE_LIST st' = FINAL_MOVE_LIST st @ p \<and> replay g bs p = Some b \<and>
           count_list b True = 1"
  using assms
proof (induction g bs st arbitrary: st' rule: solve_induct)
  case (call g bs st)
  note js = call.prems(1)
  from call.prems(2) show ?case
  proof (cases rule: solve_cases)
    case one_peg
    then have "FINAL_MOVE_LIST st' = FINAL_MOVE_LIST st @ [] \<and> replay g bs [] = Some bs \<and>
      count_list bs True = 1" by simp
    then show ?thesis by blast
  next
    case (loop moves ro)
    let ?I = "\<lambda>u :: state. FINAL_MOVE_LIST u = FINAL_MOVE_LIST st"
    let ?Q = "\<lambda>v (u :: state). v = Inr True \<longrightarrow>
                (\<exists>p b. FINAL_MOVE_LIST u = FINAL_MOVE_LIST st @ p \<and> replay g bs p = Some b \<and>
                   count_list b True = 1)"
    have "case for_loop (solve_body g bs) moves st of (None, s') \<Rightarrow> ?I s' | (Some v, s') \<Rightarrow> ?Q v s'"
    proof (rule for_loop_inv[where I = ?I])
      fix m and u :: state and ro' u'
      assume m: "m \<in> set moves" and I: "?I u" and b: "solve_body g bs m u = (ro', u')"
      from b show "case ro' of None \<Rightarrow> ?I u' | Some v \<Rightarrow> ?Q v u'"
      proof (cases rule: solve_body_cases)
        case (found new_bs)
        from call.IH[OF loop(1,2) m found(1,2) js found(3)] obtain p b where
          p: "FINAL_MOVE_LIST u' = FINAL_MOVE_LIST (enter m new_bs u) @ p"
             "replay g new_bs p = Some b" "count_list b True = 1" by blast
        from generated_move_legal[OF js loop(2) m] found(1) p(2)
        have "replay g bs (m # p) = Some b" by simp
        moreover from p(1) I have "FINAL_MOVE_LIST u' = FINAL_MOVE_LIST st @ (m # p)"
          by (simp add: enter_def)
        ultimately show ?thesis using found(4) p(3) by auto
      next
        case (failed new_bs s3)
        from solve_path[OF failed(3)] I failed(5,6) show ?thesis by (auto simp: enter_def)
      qed (use I in auto)
    qed simp
    with loop(4,5) show ?thesis by (auto split: option.splits)
  qed auto
qed

text \<open>
  Claim C3, as stated, fails on the program. Like the visited set, the path is a global that is
  set up once by \<open>main\<close>; \<open>solve\<close> appends to the path it finds and, on success, leaves
  everything there. After the call on the board with pegs at 0 and 1 has succeeded, the
  path holds its jump \<open>(0, 1, 3)\<close>. A call on the full board with peg 1 removed made
  then reports success, and the path it returns starts with that jump, which is no legal
  move of its board (there is no peg at 1 to jump over): the returned path does not replay.
\<close>

theorem returned_path_keeps_earlier_moves:
  "int (length hole_at_1) = triangular_number 4 \<and>
   solve (generate_triangle_graph 4) two_pegs init_state = (Inr True, used_state) \<and>
   fst (solve (generate_triangle_graph 4) hole_at_1 used_state) = Inr True \<and>
   FINAL_MOVE_LIST (snd (solve (generate_triangle_graph 4) hole_at_1 used_state)) =
     [(0, 1, 3), (6, 3, 1), (0, 1, 3), (5, 2, 0), (3, 4, 5), (9, 5, 2), (0, 2, 5), (7, 8, 9),
      (9, 5, 2)] \<and>
   \<not> legal_move (generate_triangle_graph 4) hole_at_1 (0, 1, 3) \<and>
   replay (generate_triangle_graph 4) hole_at_1
     (FINAL_MOVE_LIST (snd (solve (generate_triangle_graph 4) hole_at_1 used_state))) = None"
  by code_simp

text \<open>
  Claim C3, amended. For 4, 5 and 6 rows: when \<open>solve\<close> reports success, the path it
  returns is the path it found at entry followed by the moves of this call, and these moves
  replay from the board it was given: each of them is legal on the board it is applied to,
  with pegs at the source and at the jumped position, no peg at the destination, and the
  three positions neighbours in the graph and on one straight line of the triangle; and
  the replay ends on a board with exactly one peg. When the path was empty at entry, the
  returned path is these moves, so the returned path replays in this way.
\<close>

theorem reported_solution_replays:
  assumes "n \<in> {4, 5, 6}" and "int (length bs) = triangular_number n"
    and "solve (generate_triangle_graph n) bs st = (Inr True, st')"
  shows "(\<exists>p b. FINAL_MOVE_LIST st' = FINAL_MOVE_LIST st @ p \<and>
            replay (generate_triangle_graph n) bs p = Some b \<and> count_list b True = 1) \<and>
         (FINAL_MOVE_LIST st = [] \<longrightarrow>
            (\<exists>b. replay (generate_triangle_graph n) bs (FINAL_MOVE_LIST st') = Some b \<and>
               count_list b True = 1))"
proof -
  from built_graph_ok[OF assms(1)] have "jumps_straight (generate_triangle_graph n)" by simp
  from solve_success_replay[OF this assms(3)] show ?thesis by auto
qed

theorem reported_solution_replays_witness:
  "(4 :: int) \<in> {4, 5, 6} \<and> int (length hole_at_1) = triangular_number 4 \<and>
   fst (solve (generate_triangle_graph 4) hole_at_1 init_state) = Inr True \<and>
   FINAL_MOVE_LIST init_state = [] \<and>
   FINAL_MOVE_LIST (snd (solve (generate_triangle_graph 4) hole_at_1 init_state)) =
     [(6, 3, 1), (0, 1, 3), (5, 2, 0), (3, 4, 5), (9, 5, 2), (0, 2, 5), (7, 8, 9), (9, 5, 2)] \<and>
   (\<exists>b. replay (generate_triangle_graph 4) hole_at_1
          [(6, 3, 1), (0, 1, 3), (5, 2, 0), (3, 4, 5), (9, 5, 2), (0, 2, 5), (7, 8, 9), (9, 5, 2)] =
          Some b \<and>
        count_list b True = 1)"
proof -
  let ?r = "solve (generate_triangle_graph 4) hole_at_1 init_state"
  have n: "(4 :: int) \<in> {4, 5, 6}" by simp
  have l: "int (length hole_at_1) = triangular_number 4" by code_simp
  have e: "FINAL_MOVE_LIST init_state = []" by (simp add: init_state_def)
  have r: "fst ?r = Inr True \<and> FINAL_MOVE_LIST (snd ?r) =
     [(6, 3, 1), (0, 1, 3), (5, 2, 0), (3, 4, 5), (9, 5, 2), (0, 2, 5), (7, 8, 9), (9, 5, 2)]"
    by code_simp
  then have s: "?r = (Inr True, snd ?r)" by (metis prod.collapse)
  from reported_solution_replays[OF n l s] e
  have "\<exists>b. replay (generate_triangle_graph 4) hole_at_1 (FINAL_MOVE_LIST (snd ?r)) = Some b \<and>
    count_list b True = 1" by blast
  with n l e r show ?thesis by simp
qed

text \<open>
  The same for the driver: in \<open>main\<close> every call of \<open>solve\<close> starts with an empty path,
  since the calls before it failed, so the path that \<open>main\<close> reports is a solution of the
  starting board of the call that succeeded.
\<close>

lemma main_solution_replays:
  assumes "main n = (Inr (Solution p), s)"
  shows "\<exists>node \<in> set (start_nodes n). \<exists>board b.
           py_set (replicate (length (generate_triangle_graph n)) True) node False = Inr board \<and>
           replay (generate_triangle_graph n) board p = Some b \<and> count_list b True = 1"
proof -
  let ?g = "generate_triangle_graph n"
  from assms have n: "n \<in> {4, 5, 6}"
    by (auto simp: main_def split: if_splits)
  from built_graph_ok[OF n] have js: "jumps_straight ?g" by simp
  let ?I = "\<lambda>u :: state. FINAL_MOVE_LIST u = []"
  let ?Q = "\<lambda>v (u :: state). \<forall>p. v = Inr (Solution p) \<longrightarrow>
      (\<exists>node \<in> set (start_nodes n). \<exists>board b.
         py_set (replicate (length ?g) True) node False = Inr board \<and>
         replay ?g board p = Some b \<and> count_list b True = 1)"
  have "case for_loop (try_start ?g) (start_nodes n) init_state of
          (None, s') \<Rightarrow> ?I s' | (Some v, s') \<Rightarrow> ?Q v s'"
  proof (rule for_loop_inv[where I = ?I])
    show "?I init_state" by (simp add: init_state_def)
  next
    fix node and u :: state and r u'
    assume node: "node \<in> set (start_nodes n)" and I: "?I u" and t: "try_start ?g node u = (r, u')"
    show "case r of None \<Rightarrow> ?I u' | Some v \<Rightarrow> ?Q v u'"
    proof (cases "py_set (replicate (length ?g) True) node False")
      case (Inl e)
      with t show ?thesis by (auto simp: try_start_def)
    next
      case (Inr board)
      obtain x u2 where x: "solve ?g board u = (x, u2)" by (cases "solve ?g board u")
      show ?thesis
      proof (cases x)
        case (Inl e)
        with t Inr x show ?thesis by (auto simp: try_start_def)
      next
        case ok: (Inr ok)
        show ?thesis
        proof (cases ok)
          case True
          with ok x have "solve ?g board u = (Inr True, u2)" by simp
          from solve_success_replay[OF js this] I obtain b where
            "replay ?g board (FINAL_MOVE_LIST u2) = Some b" "count_list b True = 1" by auto
          with node Inr have q: "?Q (Inr (Solution (FINAL_MOVE_LIST u2))) u2" by blast
          from t Inr x ok True have "r = Some (Inr (Solution (FINAL_MOVE_LIST u2)))" "u' = u2"
            by (auto simp: try_start_def)
          with q show ?thesis by (simp del: py_set_Inr)
        next
          case False
          with ok x have "solve ?g board u = (Inr False, u2)" by simp
          from solve_path[OF this] I have "?I u2" by simp
          with t Inr x ok False show ?thesis by (simp add: try_start_def)
        qed
      qed
    qed
  qed
  with assms n show ?thesis
    by (auto simp: main_def Let_def split: if_splits prod.splits option.splits)
qed

lemma main_four_rows:
  "fst (main 4) =
     Inr (Solution [(6, 3, 1), (0, 1, 3), (5, 2, 0), (3, 4, 5), (9, 5, 2), (0, 2, 5), (7, 8, 9),
                    (9, 5, 2)])"
  by code_simp

section \<open>The search returns, and how deep it recurses\<close>

lemma wf_graph_lookup:
  assumes "wf_graph g" "v < length g"
  shows "\<exists>e. map_of g v = Some e \<and> level e \<noteq> None \<and> (\<forall>u \<in> set (nbrs e). u < length g)"
proof -
  from assms have k: "map fst g = [0..<length g]" by (simp add: wf_graph_def)
  then have d: "distinct (map fst g)" by simp
  from k assms(2) have "fst (g ! v) = v" by (metis nth_map nth_upt add_0 length_map)
  then obtain e where e: "g ! v = (v, e)" by (cases "g ! v") simp
  with assms(2) have m: "(v, e) \<in> set g" by (metis nth_mem)
  with d have "map_of g v = Some e" by simp
  with m assms(1) show ?thesis unfolding wf_graph_def by fastforce
qed

lemma wf_graph_neighbors:
  assumes "wf_graph g" "v < length g"
  shows "\<exists>ns. neighbors g v = Inr ns \<and> (\<forall>u \<in> set ns. u < length g)"
  using wf_graph_lookup[OF assms] by (auto simp: neighbors_def)

lemma wf_graph_level:
  assumes "wf_graph g" "v < length g"
  shows "\<exists>l. node_level g v = Inr l"
  using wf_graph_lookup[OF assms] by (auto simp: node_level_def)

lemma check_move_total:
  assumes "wf_graph g" "length g \<le> length bs" "src < length g" "mid < length g"
  shows "\<exists>r. check_move g bs src mid = Inr r"
proof -
  from wf_graph_level[OF assms(1,3)] obtain src_lvl where sl: "node_level g src = Inr src_lvl" by blast
  from wf_graph_level[OF assms(1,4)] obtain mid_lvl where ml: "node_level g mid = Inr mid_lvl" by blast
  from wf_graph_neighbors[OF assms(1,4)] obtain mid_nbrs where
    mn: "neighbors g mid = Inr mid_nbrs" "\<forall>u \<in> set mid_nbrs. u < length g" by blast
  from wf_graph_neighbors[OF assms(1,3)] obtain src_nbrs where
    sn: "neighbors g src = Inr src_nbrs" by blast
  from assms(2,4) have pm: "py_get bs mid = Inr (bs ! mid)" by (simp add: py_get_def)
  have dest: "\<exists>l. node_level g (nat d) = Inr l" "py_get bs (nat d) = Inr (bs ! nat d)"
    if "d \<in> int ` set mid_nbrs" for d
  proof -
    from that mn(2) have "nat d < length g" by auto
    with wf_graph_level[OF assms(1)] assms(2)
    show "\<exists>l. node_level g (nat d) = Inr l" "py_get bs (nat d) = Inr (bs ! nat d)"
      by (simp_all add: py_get_def)
  qed
  show ?thesis
  proof (cases "src_lvl = mid_lvl")
    case True
    let ?d = "2 * int mid - int src"
    show ?thesis
    proof (cases "?d \<in> int ` set mid_nbrs")
      case d: True
      from dest[OF d] obtain l where "node_level g (nat ?d) = Inr l" "py_get bs (nat ?d) = Inr (bs ! nat ?d)"
        by blast
      with True d sl ml mn sn pm show ?thesis
        unfolding check_move_def by (simp add: Let_def)
    next
      case False
      with True sl ml mn sn pm show ?thesis
        unfolding check_move_def by (simp add: Let_def)
    qed
  next
    case ne: False
    let ?d = "2 * int mid - int src + 1"
    show ?thesis
    proof (cases "?d \<in> int ` set mid_nbrs")
      case d: True
      from dest[OF d] have "py_get bs (nat ?d) = Inr (bs ! nat ?d)" by blast
      with ne d sl ml mn sn pm show ?thesis
        unfolding check_move_def by (simp add: Let_def)
    next
      case False
      with ne sl ml mn sn pm show ?thesis
        unfolding check_move_def by (simp add: Let_def)
    qed
  qed
qed

lemma moves_over_mids_total:
  assumes "wf_graph g" "length g \<le> length bs" "src < length g" "\<forall>mid \<in> set mids. mid < length g"
  shows "\<exists>ms. moves_over_mids g bs src mids moves = Inr ms"
  using assms(4)
proof (induction mids arbitrary: moves)
  case Nil
  then show ?case by simp
next
  case (Cons mid mids)
  then have "mid < length g" by simp
  from check_move_total[OF assms(1,2,3) this] obtain r where "check_move g bs src mid = Inr r" by blast
  with Cons show ?case by simp
qed

lemma moves_over_srcs_total:
  assumes "wf_graph g" "length g \<le> length bs" "\<forall>src \<in> set srcs. src < length g"
  shows "\<exists>ms. moves_over_srcs g bs srcs moves = Inr ms"
  using assms(3)
proof (induction srcs arbitrary: moves)
  case Nil
  then show ?case by simp
next
  case (Cons src srcs)
  then have s: "src < length g" by simp
  with assms(2) have p: "py_get bs src = Inr (bs ! src)" by (simp add: py_get_def)
  from wf_graph_neighbors[OF assms(1) s] obtain mids where
    n: "neighbors g src = Inr mids" "\<forall>mid \<in> set mids. mid < length g" by blast
  from moves_over_mids_total[OF assms(1,2) s n(2)] obtain ms where
    "moves_over_mids g bs src mids moves = Inr ms" by blast
  with Cons p n(1) show ?case by simp
qed

lemma get_valid_moves_total:
  assumes "wf_graph g" "length g \<le> length bs"
  shows "\<exists>moves. get_valid_moves g bs = Inr moves"
  unfolding get_valid_moves_def using moves_over_srcs_total[OF assms] by simp

lemma solve_returns:
  assumes "wf_graph g" "length g \<le> length bs" "solve g bs st = (r, st')"
  shows "\<exists>b. r = Inr b"
  using assms
proof (induction g bs st arbitrary: r st' rule: solve_induct)
  case (call g bs st)
  note wf = call.prems(1) and len = call.prems(2)
  from call.prems(3) show ?case
  proof (cases rule: solve_cases)
    case (raised e)
    with get_valid_moves_total[OF wf len] show ?thesis by simp
  next
    case (loop moves ro)
    have "case for_loop (solve_body g bs) moves st of
            (None, s') \<Rightarrow> True | (Some v, s') \<Rightarrow> (\<exists>b. v = Inr b)"
    proof (rule for_loop_inv[where I = "\<lambda>u. True"])
      fix m and u :: state and ro' u'
      assume m: "m \<in> set moves" and b: "solve_body g bs m u = (ro', u')"
      from generated_move_count[OF loop(2) m] obtain nb where
        nb: "make_move bs m = Inr nb" "length nb = length bs" by blast
      from b show "case ro' of None \<Rightarrow> True | Some v \<Rightarrow> \<exists>b. v = Inr b"
      proof (cases rule: solve_body_cases)
        case (bad_move e)
        with nb show ?thesis by simp
      next
        case (raised new_bs e)
        with nb len have "length g \<le> length new_bs" by simp
        from call.IH[OF loop(1,2) m raised(1,2) wf this raised(3)] show ?thesis by simp
      next
        case (pop_failed new_bs)
        from solve_path[OF pop_failed(3)] pop_failed(4) show ?thesis by (simp add: enter_def)
      qed auto
    qed simp
    with loop(4,5) show ?thesis by (auto split: option.splits)
  qed auto
qed

text \<open>
  The recursive calls of \<open>solve\<close>: what the relation \<open>solve_rel\<close> of its definition
  holds, spelled out. A call is made on the same graph, on the board that a generated move
  makes of the caller's board, with the globals as \<open>enter\<close> leaves them.
\<close>

lemma solve_rel_iff:
  "solve_rel (g', nb, s') (g, bs, st) \<longleftrightarrow>
     g' = g \<and> count_list bs True \<noteq> 1 \<and>
     (\<exists>moves m u. get_valid_moves g bs = Inr moves \<and> m \<in> set moves \<and>
        make_move bs m = Inr nb \<and> bs_hash nb \<notin> set (SEEN u) \<and> s' = enter m nb u)"
proof
  assume "solve_rel (g', nb, s') (g, bs, st)"
  then show "g' = g \<and> count_list bs True \<noteq> 1 \<and>
     (\<exists>moves m u. get_valid_moves g bs = Inr moves \<and> m \<in> set moves \<and>
        make_move bs m = Inr nb \<and> bs_hash nb \<notin> set (SEEN u) \<and> s' = enter m nb u)"
    by (cases rule: solve_rel.cases) (auto simp: enter_def)
next
  assume a: "g' = g \<and> count_list bs True \<noteq> 1 \<and>
     (\<exists>moves m u. get_valid_moves g bs = Inr moves \<and> m \<in> set moves \<and>
        make_move bs m = Inr nb \<and> bs_hash nb \<notin> set (SEEN u) \<and> s' = enter m nb u)"
  then obtain moves m u where
    c: "count_list bs True \<noteq> 1" "get_valid_moves g bs = Inr moves" "m \<in> set moves"
       "make_move bs m = Inr nb" "bs_hash nb \<notin> set (SEEN u)" and s': "s' = enter m nb u"
    by blast
  from c(3) have l: "length moves \<noteq> 0" by auto
  from c(5) have h: "bs_hash nb \<notin> set (SEEN (u\<lparr>N_MOVES := N_MOVES u + 1\<rparr>))" by simp
  have "solve_rel (g, nb, (u\<lparr>N_MOVES := N_MOVES u + 1\<rparr>)
      \<lparr>SEEN := SEEN (u\<lparr>N_MOVES := N_MOVES u + 1\<rparr>) @ [bs_hash nb],
       FINAL_MOVE_LIST := FINAL_MOVE_LIST (u\<lparr>N_MOVES := N_MOVES u + 1\<rparr>) @ [m]\<rparr>)
      (g, bs, st)"
    by (rule solve_rel.intros[OF c(1,2) l c(3) refl c(4) h refl])
  with a s' show "solve_rel (g', nb, s') (g, bs, st)" by (simp add: enter_def)
qed

lemma solve_rel_recursive_call:
  assumes "solve_rel (g', nb, s') (g, bs, st)"
  shows "g' = g \<and> recursive_call g bs nb"
proof -
  from assms obtain moves m where
    c: "g' = g" "count_list bs True \<noteq> 1" "get_valid_moves g bs = Inr moves" "m \<in> set moves"
       "make_move bs m = Inr nb"
    unfolding solve_rel_iff by blast
  from c(4,5) have "Inr nb \<in> make_move bs ` set moves" by (metis image_eqI)
  with c(1,2,3) show ?thesis by (simp add: recursive_call_def)
qed

lemma solve_rel_enter:
  assumes "count_list bs True \<noteq> 1"
    and "case get_valid_moves g bs of Inl e \<Rightarrow> False | Inr moves \<Rightarrow> m \<in> set moves"
    and "make_move bs m = Inr nb" and "bs_hash nb \<notin> set (SEEN u)"
  shows "solve_rel (g, nb, enter m nb u) (g, bs, st)"
proof -
  from assms(2) obtain moves where "get_valid_moves g bs = Inr moves" "m \<in> set moves"
    by (auto split: sum.splits)
  with assms(1,3,4) show ?thesis unfolding solve_rel_iff by blast
qed

lemma recursive_call_count:
  assumes "recursive_call g bs new_bs"
  shows "count_list new_bs True + 1 = count_list bs True \<and> length new_bs = length bs \<and>
         2 \<le> count_list bs True"
proof -
  from assms obtain moves m where
    c: "count_list bs True \<noteq> 1" and g: "get_valid_moves g bs = Inr moves"
    and m: "m \<in> set moves" "make_move bs m = Inr new_bs"
    unfolding recursive_call_def by (auto split: sum.splits)
  from generated_move_count[OF g m(1)] m(2) c show ?thesis by auto
qed

lemma solve_calls_nth:
  assumes "solve_calls (g, bs, st) chain" "i < length chain"
  shows "fst (chain ! i) = g \<and>
         count_list (fst (snd (chain ! i))) True + (i + 1) = count_list bs True"
  using assms
proof (induction chain arbitrary: bs st i)
  case Nil
  then show ?case by simp
next
  case (Cons a chain)
  obtain g' nb s' where a: "a = (g', nb, s')" by (cases a)
  with Cons.prems have r: "solve_rel (g', nb, s') (g, bs, st)"
    and c: "solve_calls (g', nb, s') chain" by simp_all
  from solve_rel_recursive_call[OF r] have g': "g' = g" and rc: "recursive_call g bs nb"
    by simp_all
  from recursive_call_count[OF rc] have n: "count_list nb True + 1 = count_list bs True"
    by simp
  show ?case
  proof (cases i)
    case 0
    with a g' n show ?thesis by simp
  next
    case (Suc j)
    with Cons.prems have "j < length chain" by simp
    from Cons.IH[OF c[unfolded g'] this] n Suc show ?thesis by simp
  qed
qed

lemma solve_calls_depth:
  assumes "solve_calls (g, bs, st) chain" "chain \<noteq> []"
  shows "length chain + 1 \<le> count_list bs True"
  using assms
proof (induction chain arbitrary: g bs st)
  case Nil
  then show ?case by simp
next
  case (Cons a chain)
  obtain g' nb s' where a: "a = (g', nb, s')" by (cases a)
  with Cons.prems have r: "solve_rel (g', nb, s') (g, bs, st)"
    and c: "solve_calls (g', nb, s') chain" by simp_all
  from solve_rel_recursive_call[OF r] have "recursive_call g bs nb" by simp
  note n = recursive_call_count[OF this]
  show ?case
  proof (cases "chain = []")
    case True
    with n show ?thesis by simp
  next
    case False
    from Cons.IH[OF c False] n show ?thesis by simp
  qed
qed

text \<open>
  Claim C7, as stated, fails on the program, in its bound on the depth. A board with no peg at all is
  a board of \<open>T(n)\<close> positions too; \<open>solve\<close> finds no move on it and returns failure
  without a recursive call. The recursion below that call has depth 0, and the number of
  pegs minus one is \<open>-1\<close>.
\<close>

theorem depth_on_board_without_pegs:
  "int (length no_pegs) = triangular_number 4 \<and>
   get_valid_moves (generate_triangle_graph 4) no_pegs = Inr [] \<and>
   solve (generate_triangle_graph 4) no_pegs init_state = (Inr False, init_state) \<and>
   solve_calls (generate_triangle_graph 4, no_pegs, init_state) [] \<and>
   \<not> int (length ([] :: (graph \<times> bool list \<times> state) list)) \<le> int (count_list no_pegs True) - 1"
  by code_simp

text \<open>
  Claim C7, amended. For 4, 5 and 6 rows and a board of \<open>T(n)\<close> positions, \<open>solve\<close> returns a
  Boolean: the recursion is well-founded, and no index or key is ever missing. Every
  recursive call that \<open>solve\<close> makes is on the same graph and on a board that comes from
  the caller's board by one generated move and holds exactly one peg fewer; the call nested
  \<open>i + 1\<close> deep below the first call is on a board with \<open>i + 1\<close> pegs fewer than the
  board of the first. So the recursion below the call on \<open>bs\<close> is never deeper than the
  number of pegs of \<open>bs\<close> minus one when \<open>bs\<close> holds a peg, it has depth 0 when \<open>bs\<close>
  holds none, and it is never deeper than \<open>T(n) - 1\<close>.
\<close>

theorem solve_terminates_with_bounded_depth:
  assumes "n \<in> {4, 5, 6}" and "int (length bs) = triangular_number n"
  shows "(\<exists>b. fst (solve (generate_triangle_graph n) bs st) = Inr b) \<and>
         (\<forall>g' new_bs s'. solve_rel (g', new_bs, s') (generate_triangle_graph n, bs, st) \<longrightarrow>
            g' = generate_triangle_graph n \<and>
            recursive_call (generate_triangle_graph n) bs new_bs \<and>
            count_list new_bs True + 1 = count_list bs True) \<and>
         (\<forall>chain. solve_calls (generate_triangle_graph n, bs, st) chain \<longrightarrow>
            (\<forall>i < length chain.
               fst (chain ! i) = generate_triangle_graph n \<and>
               count_list (fst (snd (chain ! i))) True + (i + 1) = count_list bs True) \<and>
            int (length chain) \<le> max 0 (int (count_list bs True) - 1) \<and>
            int (length chain) \<le> triangular_number n - 1)"
proof -
  let ?g = "generate_triangle_graph n"
  from built_graph_ok[OF assms(1)] have wf: "wf_graph ?g" by simp
  from triangle_graph_lengths[OF assms(1)] assms(2) have len: "length ?g \<le> length bs" by simp
  have "solve ?g bs st = (fst (solve ?g bs st), snd (solve ?g bs st))" by simp
  from solve_returns[OF wf len this] have 1: "\<exists>b. fst (solve ?g bs st) = Inr b" .
  have 2: "g' = ?g \<and> recursive_call ?g bs new_bs \<and> count_list new_bs True + 1 = count_list bs True"
    if r: "solve_rel (g', new_bs, s') (?g, bs, st)" for g' new_bs s'
  proof -
    from solve_rel_recursive_call[OF r] have g: "g' = ?g" and c: "recursive_call ?g bs new_bs"
      by simp_all
    from recursive_call_count[OF c] g c show ?thesis by simp
  qed
  have 3: "(\<forall>i < length chain. fst (chain ! i) = ?g \<and>
             count_list (fst (snd (chain ! i))) True + (i + 1) = count_list bs True) \<and>
           int (length chain) \<le> max 0 (int (count_list bs True) - 1) \<and>
           int (length chain) \<le> triangular_number n - 1"
    if c: "solve_calls (?g, bs, st) chain" for chain
  proof -
    have a: "\<forall>i < length chain. fst (chain ! i) = ?g \<and>
             count_list (fst (snd (chain ! i))) True + (i + 1) = count_list bs True"
      using solve_calls_nth[OF c] by blast
    have b: "int (length chain) \<le> max 0 (int (count_list bs True) - 1) \<and>
           int (length chain) \<le> triangular_number n - 1"
    proof (cases "chain = []")
      case True
      with assms(1) show ?thesis by (auto simp: triangular_number_def)
    next
      case False
      from solve_calls_depth[OF c False] have d: "length chain + 1 \<le> count_list bs True" .
      have "count_list bs True \<le> length bs" by (rule count_le_length)
      with d assms(2) show ?thesis by simp
    qed
    from a b show ?thesis by blast
  qed
  from 1 2 3 show ?thesis by blast
qed

theorem solve_terminates_with_bounded_depth_witness:
  "(4 :: int) \<in> {4, 5, 6} \<and> int (length example_board) = triangular_number 4 \<and>
   (\<exists>b. fst (solve (generate_triangle_graph 4) example_board init_state) = Inr b) \<and>
   solve_rel (generate_triangle_graph 4, jumped_once, enter (3, 1, 0) jumped_once init_state)
     (generate_triangle_graph 4, example_board, init_state) \<and>
   count_list jumped_once True + 1 = count_list example_board True \<and>
   solve_calls (generate_triangle_graph 4, example_board, init_state)
     [(generate_triangle_graph 4, jumped_once, enter (3, 1, 0) jumped_once init_state),
      (generate_triangle_graph 4, jumped_twice,
       enter (5, 4, 3) jumped_twice (enter (3, 1, 0) jumped_once init_state))] \<and>
   count_list jumped_twice True + 2 = count_list example_board True \<and>
   (2 :: int) \<le> int (count_list example_board True) - 1 \<and>
   (2 :: int) \<le> triangular_number 4 - 1"
proof -
  let ?g = "generate_triangle_graph 4"
  let ?s1 = "enter (3, 1, 0) jumped_once init_state"
  let ?s2 = "enter (5, 4, 3) jumped_twice ?s1"
  let ?chain = "[(?g, jumped_once, ?s1), (?g, jumped_twice, ?s2)]"
  have n: "(4 :: int) \<in> {4, 5, 6}" by simp
  have l: "int (length example_board) = triangular_number 4" by code_simp
  have k: "count_list example_board True = 9" by code_simp
  have r1: "solve_rel (?g, jumped_once, ?s1) (?g, example_board, init_state)"
  proof (rule solve_rel_enter)
    show "count_list example_board True \<noteq> 1" by code_simp
    show "case get_valid_moves ?g example_board of Inl e \<Rightarrow> False
          | Inr moves \<Rightarrow> (3, 1, 0) \<in> set moves" by code_simp
    show "make_move example_board (3, 1, 0) = Inr jumped_once" by code_simp
    show "bs_hash jumped_once \<notin> set (SEEN init_state)" by code_simp
  qed
  have r2: "solve_rel (?g, jumped_twice, ?s2) (?g, jumped_once, ?s1)"
  proof (rule solve_rel_enter)
    show "count_list jumped_once True \<noteq> 1" by code_simp
    show "case get_valid_moves ?g jumped_once of Inl e \<Rightarrow> False
          | Inr moves \<Rightarrow> (5, 4, 3) \<in> set moves" by code_simp
    show "make_move jumped_once (5, 4, 3) = Inr jumped_twice" by code_simp
    show "bs_hash jumped_twice \<notin> set (SEEN ?s1)" by code_simp
  qed
  from r1 r2 have c: "solve_calls (?g, example_board, init_state) ?chain" by simp
  note t = solve_terminates_with_bounded_depth[OF n l, of init_state]
  from t have 1: "\<exists>b. fst (solve ?g example_board init_state) = Inr b" by blast
  from t r1 have 2: "count_list jumped_once True + 1 = count_list example_board True" by blast
  from t c have 3: "(\<forall>i < length ?chain. fst (?chain ! i) = ?g \<and>
             count_list (fst (snd (?chain ! i))) True + (i + 1) = count_list example_board True) \<and>
           int (length ?chain) \<le> max 0 (int (count_list example_board True) - 1) \<and>
           int (length ?chain) \<le> triangular_number 4 - 1" by blast
  from 3[THEN conjunct1, rule_format, of 1]
  have 4: "count_list jumped_twice True + 2 = count_list example_board True" by simp
  from 3 k have 5: "(2 :: int) \<le> int (count_list example_board True) - 1"
    and 6: "(2 :: int) \<le> triangular_number 4 - 1" by simp_all
  from n l 1 r1 2 c 4 5 6 show ?thesis by blast
qed

section \<open>The search leaves its board alone\<close>

lemma truncate_simps [simp]:
  "state.truncate (s\<lparr>heap := l\<rparr>) = state.truncate s"
  "state.truncate (s\<lparr>N_MOVES := n\<rparr>) = (state.truncate s)\<lparr>N_MOVES := n\<rparr>"
  "state.truncate (s\<lparr>SEEN := x\<rparr>) = (state.truncate s)\<lparr>SEEN := x\<rparr>"
  "state.truncate (s\<lparr>FINAL_MOVE_LIST := p\<rparr>) = (state.truncate s)\<lparr>FINAL_MOVE_LIST := p\<rparr>"
  "SEEN (state.truncate s) = SEEN s"
  "FINAL_MOVE_LIST (state.truncate s) = FINAL_MOVE_LIST s"
  "N_MOVES (state.truncate s) = N_MOVES s"
  by (simp_all add: state.truncate_def)

lemma set_item_sim:
  assumes "r < length (heap s)"
  shows "set_item r i v s =
           (case py_set (heap s ! r) i v of Inl e \<Rightarrow> Inl e
            | Inr xs \<Rightarrow> Inr (s\<lparr>heap := (heap s)[r := xs]\<rparr>))"
  by (simp add: set_item_def)

lemma make_move_at_sim:
  assumes "r < length (heap s)"
  shows "\<exists>s'. make_move_at r m s =
             ((case make_move (heap s ! r) m of Inl e \<Rightarrow> Some e | Inr nb \<Rightarrow> None), s') \<and>
           state.truncate s' = state.truncate s \<and>
           length (heap s') = length (heap s) \<and>
           (\<forall>k. k \<noteq> r \<longrightarrow> heap s' ! k = heap s ! k) \<and>
           (\<forall>nb. make_move (heap s ! r) m = Inr nb \<longrightarrow> heap s' ! r = nb)"
proof -
  obtain m0 m1 m2 where m: "m = (m0, m1, m2)" by (cases m)
  show ?thesis
    using assms unfolding m make_move_at_def make_move_def set_item_def py_set_def
    by (auto simp: bind_e_def)
qed

lemma for_loop_opt_sim:
  assumes "I u s"
    and "\<And>x u s. x \<in> set xs \<Longrightarrow> I u s \<Longrightarrow>
           \<exists>ro u' s'. body x u = (ro, u') \<and> body' x s = Some (ro, s') \<and> I u' s'"
  shows "\<exists>ro u' s'. for_loop body xs u = (ro, u') \<and> for_loop_opt body' xs s = Some (ro, s') \<and> I u' s'"
  using assms
proof (induction xs arbitrary: u s)
  case Nil
  then show ?case by simp
next
  case (Cons x xs)
  from Cons.prems(2)[OF _ Cons.prems(1), of x] obtain ro u' s' where
    b: "body x u = (ro, u')" "body' x s = Some (ro, s')" and i: "I u' s'" by auto
  show ?case
  proof (cases ro)
    case None
    from i have "\<exists>ro u'' s''. for_loop body xs u' = (ro, u'') \<and>
        for_loop_opt body' xs s' = Some (ro, s'') \<and> I u'' s''"
      by (rule Cons.IH) (rule Cons.prems(2), simp_all)
    with None b show ?thesis by simp
  next
    case (Some a)
    with b i show ?thesis by simp
  qed
qed

lemma solve_ref_body_eq:
  "solve_ref_body g bs m s =
     (case make_move_at (length (heap s)) m
             (s\<lparr>N_MOVES := N_MOVES s + 1, heap := heap s @ [heap s ! bs]\<rparr>) of
        (Some e, s3) \<Rightarrow> Some (Some (Inl e), s3)
      | (None, s3) \<Rightarrow>
          if bs_hash (heap s3 ! length (heap s)) \<in> set (SEEN s3) then Some (None, s3)
          else
            Option.bind (solve_ref g (length (heap s))
                (s3\<lparr>SEEN := SEEN s3 @ [bs_hash (heap s3 ! length (heap s))],
                    FINAL_MOVE_LIST := FINAL_MOVE_LIST s3 @ [m]\<rparr>)) (\<lambda>(r, s5).
              case r of
                Inl e \<Rightarrow> Some (Some (Inl e), s5)
              | Inr True \<Rightarrow> Some (Some (Inr True), s5)
              | Inr False \<Rightarrow>
                  (case pop (FINAL_MOVE_LIST s5) of
                     Inl e \<Rightarrow> Some (Some (Inl e), s5)
                   | Inr p \<Rightarrow> Some (None, s5\<lparr>FINAL_MOVE_LIST := p\<rparr>))))"
  by (simp add: solve_ref_body_def copy_def Let_def split: prod.splits option.splits)

lemma solve_ref_refines: "refines g b u"
proof (induction g b u rule: solve_induct)
  case (call g b u)
  show ?case
    unfolding refines_def
  proof (intro allI impI)
    fix st :: store and bs
    assume bs: "bs < length (heap st)" and b: "heap st ! bs = b" and u: "state.truncate st = u"
    let ?goal = "\<exists>st'. solve_ref g bs st = Some (fst (solve g b u), st') \<and>
           state.truncate st' = snd (solve g b u) \<and>
           length (heap st) \<le> length (heap st') \<and>
           take (length (heap st)) (heap st') = heap st"
    show ?goal
    proof (cases "count_list b True = 1")
      case True
      with b u show ?thesis by (simp add: solve_ref_unfold solve_unfold)
    next
      case c: False
      show ?thesis
      proof (cases "get_valid_moves g b")
        case (Inl e)
        with c b u show ?thesis by (simp add: solve_ref_unfold solve_unfold)
      next
        case (Inr moves)
        show ?thesis
        proof (cases "moves = []")
          case True
          with c Inr b u show ?thesis by (simp add: solve_ref_unfold solve_unfold)
        next
          case ne: False
          let ?n0 = "length (heap st)"
          let ?I = "\<lambda>(u' :: state) (s :: store). state.truncate s = u' \<and> ?n0 \<le> length (heap s) \<and>
                      take ?n0 (heap s) = heap st"
          have "\<exists>ro u' s'. for_loop (solve_body g b) moves u = (ro, u') \<and>
                  for_loop_opt (solve_ref_body g bs) moves st = Some (ro, s') \<and> ?I u' s'"
          proof (rule for_loop_opt_sim[where I = ?I])
            show "?I u st" using u by simp
          next
            fix m and u1 :: state and s :: store
            assume m: "m \<in> set moves" and I: "?I u1 s"
            from I bs have "heap s ! bs = heap st ! bs" by (metis nth_take)
            with b have bb: "heap s ! bs = b" by simp
            define new_bs where "new_bs = length (heap s)"
            define s2 where "s2 = s\<lparr>N_MOVES := N_MOVES s + 1, heap := heap s @ [heap s ! bs]\<rparr>"
            have n2: "new_bs < length (heap s2)" "heap s2 ! new_bs = b"
              by (simp_all add: s2_def new_bs_def bb)
            from make_move_at_sim[OF n2(1), of m] n2(2) obtain s3 where
              s3: "make_move_at new_bs m s2 =
                     ((case make_move b m of Inl e \<Rightarrow> Some e | Inr nb \<Rightarrow> None), s3)"
                  "state.truncate s3 = state.truncate s2"
                  "length (heap s3) = length (heap s2)"
                  "\<forall>k. k \<noteq> new_bs \<longrightarrow> heap s3 ! k = heap s2 ! k"
                  "\<forall>nb. make_move b m = Inr nb \<longrightarrow> heap s3 ! new_bs = nb"
              by auto
            from I have "N_MOVES (state.truncate s) = N_MOVES u1" by simp
            then have nm: "N_MOVES s = N_MOVES u1" by simp
            have t3: "state.truncate s3 = u1\<lparr>N_MOVES := N_MOVES u1 + 1\<rparr>"
              using s3(2) I nm by (simp add: s2_def)
            have len3: "length (heap s3) = Suc (length (heap s))"
              using s3(3) by (simp add: s2_def)
            have "heap s3 ! i = heap s ! i" if "i < ?n0" for i
            proof -
              from that I have "i < length (heap s)" by simp
              with s3(4) show ?thesis by (simp add: s2_def new_bs_def nth_append)
            qed
            with I len3 have "take ?n0 (heap s3) = take ?n0 (heap s)"
              by (intro nth_take_lemma) auto
            with I have k3: "take ?n0 (heap s3) = heap st" by simp
            have I3: "?I (u1\<lparr>N_MOVES := N_MOVES u1 + 1\<rparr>) s3"
              using t3 k3 len3 I by simp
            have seen3: "SEEN s3 = SEEN u1"
              using arg_cong[OF t3, of SEEN] by simp
            have path3: "FINAL_MOVE_LIST s3 = FINAL_MOVE_LIST u1"
              using arg_cong[OF t3, of FINAL_MOVE_LIST] by simp
            have ref_eq: "solve_ref_body g bs m s =
              (case make_move_at new_bs m s2 of
                 (Some e, s3) \<Rightarrow> Some (Some (Inl e), s3)
               | (None, s3) \<Rightarrow>
                   if bs_hash (heap s3 ! new_bs) \<in> set (SEEN s3) then Some (None, s3)
                   else
                     Option.bind (solve_ref g new_bs
                         (s3\<lparr>SEEN := SEEN s3 @ [bs_hash (heap s3 ! new_bs)],
                             FINAL_MOVE_LIST := FINAL_MOVE_LIST s3 @ [m]\<rparr>)) (\<lambda>(r, s5).
                       case r of
                         Inl e \<Rightarrow> Some (Some (Inl e), s5)
                       | Inr True \<Rightarrow> Some (Some (Inr True), s5)
                       | Inr False \<Rightarrow>
                           (case pop (FINAL_MOVE_LIST s5) of
                              Inl e \<Rightarrow> Some (Some (Inl e), s5)
                            | Inr p \<Rightarrow> Some (None, s5\<lparr>FINAL_MOVE_LIST := p\<rparr>))))"
              unfolding new_bs_def s2_def by (rule solve_ref_body_eq)
            show "\<exists>ro u' s'. solve_body g b m u1 = (ro, u') \<and>
                    solve_ref_body g bs m s = Some (ro, s') \<and> ?I u' s'"
            proof (cases "make_move b m")
              case (Inl e)
              with s3(1) I3 show ?thesis by (simp add: solve_body_eq ref_eq)
            next
              case mm: (Inr nb)
              with s3(5) have nb: "heap s3 ! new_bs = nb" by simp
              show ?thesis
              proof (cases "bs_hash nb \<in> set (SEEN u1)")
                case True
                with mm s3(1) I3 nb seen3 show ?thesis by (simp add: solve_body_eq ref_eq)
              next
                case h: False
                define s4 where "s4 = s3\<lparr>SEEN := SEEN s3 @ [bs_hash nb],
                             FINAL_MOVE_LIST := FINAL_MOVE_LIST s3 @ [m]\<rparr>"
                have t4: "state.truncate s4 = enter m nb u1"
                  by (simp add: s4_def t3 seen3 path3 enter_def)
                have l4: "new_bs < length (heap s4)" "heap s4 ! new_bs = nb" "heap s4 = heap s3"
                  using len3 nb by (simp_all add: s4_def new_bs_def)
                obtain x u6 where x: "solve g nb (enter m nb u1) = (x, u6)"
                  by (cases "solve g nb (enter m nb u1)")
                from call.IH[OF c Inr m mm h] l4(1,2) t4 x obtain s6 where
                  s6: "solve_ref g new_bs s4 = Some (x, s6)" "state.truncate s6 = u6"
                      "length (heap s4) \<le> length (heap s6)"
                      "take (length (heap s4)) (heap s6) = heap s4"
                  unfolding refines_def by fastforce
                have "take ?n0 (heap s6) = take ?n0 (take (length (heap s4)) (heap s6))"
                  using I len3 l4(3) by (simp add: min_def)
                with s6(4) l4(3) k3 have k6: "take ?n0 (heap s6) = heap st" by simp
                from s6(3) l4(3) len3 I have len6: "?n0 \<le> length (heap s6)" by simp
                have I6: "?I u6 s6" using s6(2) k6 len6 by simp
                have p6: "FINAL_MOVE_LIST s6 = FINAL_MOVE_LIST u6"
                  using arg_cong[OF s6(2), of FINAL_MOVE_LIST] by simp
                have pure: "solve_body g b m u1 =
                    (case x of Inl e \<Rightarrow> (Some (Inl e), u6)
                     | Inr True \<Rightarrow> (Some (Inr True), u6)
                     | Inr False \<Rightarrow>
                         (case pop (FINAL_MOVE_LIST u6) of
                            Inl e \<Rightarrow> (Some (Inl e), u6)
                          | Inr p \<Rightarrow> (None, u6\<lparr>FINAL_MOVE_LIST := p\<rparr>)))"
                  using mm h x by (simp add: solve_body_eq)
                have ref: "solve_ref_body g bs m s =
                    (case x of Inl e \<Rightarrow> Some (Some (Inl e), s6)
                     | Inr True \<Rightarrow> Some (Some (Inr True), s6)
                     | Inr False \<Rightarrow>
                         (case pop (FINAL_MOVE_LIST u6) of
                            Inl e \<Rightarrow> Some (Some (Inl e), s6)
                          | Inr p \<Rightarrow> Some (None, s6\<lparr>FINAL_MOVE_LIST := p\<rparr>)))"
                  using mm h s3(1) nb seen3 s6(1) p6
                  by (simp add: ref_eq s4_def split: sum.splits bool.splits)
                show ?thesis
                proof (cases x)
                  case (Inl e)
                  with pure ref I6 show ?thesis by simp
                next
                  case (Inr ok)
                  show ?thesis
                  proof (cases ok)
                    case True
                    with Inr pure ref I6 show ?thesis by simp
                  next
                    case False
                    show ?thesis
                    proof (cases "pop (FINAL_MOVE_LIST u6)")
                      case (Inl e)
                      with False Inr pure ref I6 show ?thesis by simp
                    next
                      case p: (Inr p)
                      from I6 have "?I (u6\<lparr>FINAL_MOVE_LIST := p\<rparr>) (s6\<lparr>FINAL_MOVE_LIST := p\<rparr>)"
                        by simp
                      with False Inr p pure ref show ?thesis by simp
                    qed
                  qed
                qed
              qed
            qed
          qed
          then obtain ro u' s' where
            l: "for_loop (solve_body g b) moves u = (ro, u')"
               "for_loop_opt (solve_ref_body g bs) moves st = Some (ro, s')" "?I u' s'" by blast
          with c Inr ne b show ?thesis
            by (cases ro) (simp_all add: solve_ref_unfold solve_unfold)
        qed
      qed
    qed
  qed
qed

text \<open>
  Claim C10. Run on a store of list objects, with the board passed by reference, \<open>solve\<close>
  returns, and the list it was given holds the same values afterwards as before, whatever
  the result: every write goes to a copy allocated by the call that writes. The same holds
  of every list that existed before the call, and the result and the globals are those of
  the search on board values.
\<close>

theorem solve_does_not_mutate_its_board:
  assumes "bs < length (heap st)"
  shows "\<exists>r st'. solve_ref g bs st = Some (r, st') \<and>
           heap st' ! bs = heap st ! bs \<and>
           take (length (heap st)) (heap st') = heap st \<and>
           (r, state.truncate st') = solve g (heap st ! bs) (state.truncate st)"
proof -
  from solve_ref_refines[of g "heap st ! bs" "state.truncate st"] assms obtain st' where
    r: "solve_ref g bs st = Some (fst (solve g (heap st ! bs) (state.truncate st)), st')"
       "state.truncate st' = snd (solve g (heap st ! bs) (state.truncate st))"
       "length (heap st) \<le> length (heap st')"
       "take (length (heap st)) (heap st') = heap st"
    unfolding refines_def by blast
  from assms r(4) have "heap st' ! bs = heap st ! bs" by (metis nth_take)
  with r show ?thesis by simp
qed

theorem solve_does_not_mutate_its_board_witness:
  "(0 :: nat) < length (heap one_board) \<and>
   (\<exists>st'. solve_ref (generate_triangle_graph 4) 0 one_board = Some (Inr False, st') \<and>
      heap st' ! 0 = three_pegs \<and> SEEN st' = [''0001010000''])"
proof -
  let ?g = "generate_triangle_graph 4"
  have h: "(0 :: nat) < length (heap one_board)" by (simp add: one_board_def)
  have l: "heap one_board ! 0 = three_pegs" "state.truncate one_board = init_state"
    by (simp_all add: one_board_def init_state_def state.truncate_def)
  have e: "fst (solve ?g three_pegs init_state) = Inr False"
    "SEEN (snd (solve ?g three_pegs init_state)) = [''0001010000'']"
    by code_simp+
  from solve_does_not_mutate_its_board[OF h, of ?g] l obtain r st' where
    r: "solve_ref ?g 0 one_board = Some (r, st')" "heap st' ! 0 = three_pegs"
       "(r, state.truncate st') = solve ?g three_pegs init_state"
    by auto
  from r(3) e have "r = Inr False" "SEEN (state.truncate st') = [''0001010000'']"
    by (metis fst_conv, metis snd_conv)
  with r h show ?thesis by simp
qed

end
